theory Spec2Isabelle
  imports Main "HOL-Library.AList"
begin

chapter \<open>Frame-tree orchestration and utility decorators of puppeteer-core\<close>

section \<open>util/decorators.ts\<close>

subsection \<open>moveable\<close>

text \<open>
  Objects are identified by a reference. The module-level \<^verbatim>\<open>instances\<close> WeakSet is
  the field \<open>instances\<close> of the world; instance state lives in \<open>heap\<close>. The list
  \<open>invoked\<close> records every call of an original dispose body
  (\<^verbatim>\<open>dispose.call(this)\<close>, \<^verbatim>\<open>asyncDispose.call(this)\<close>).
\<close>

type_synonym obj = nat

datatype dispose_kind = SyncDispose | AsyncDispose

record 's world =
  instances :: "obj set"
  heap :: "obj \<Rightarrow> 's"
  invoked :: "(dispose_kind \<times> obj) list"

type_synonym 's body = "obj \<Rightarrow> (obj \<Rightarrow> 's) \<Rightarrow> (obj \<Rightarrow> 's)"
type_synonym 's meth = "obj \<Rightarrow> 's world \<Rightarrow> 's world"

text \<open>\<^verbatim>\<open>Class.prototype\<close>: the three methods the decorator reads or writes.\<close>

record 's proto =
  p_dispose :: "'s meth option"
  p_asyncDispose :: "'s meth option"
  p_move :: "'s meth option"

definition call_original :: "dispose_kind \<Rightarrow> 's body \<Rightarrow> 's meth" where
  "call_original k b this w =
     w\<lparr>heap := b this (heap w), invoked := invoked w @ [(k, this)]\<rparr>"

text \<open>
  A class as written by its author: the dispose bodies act on instance state only (the
  WeakSet is private to the decorator's module).
\<close>

definition source_class ::
  "'s body option \<Rightarrow> 's body option \<Rightarrow> 's meth option \<Rightarrow> 's proto" where
  "source_class d a m =
     \<lparr>p_dispose = map_option (call_original SyncDispose) d,
      p_asyncDispose = map_option (call_original AsyncDispose) a,
      p_move = m\<rparr>"

definition wrap_dispose :: "'s meth \<Rightarrow> 's meth" where
  "wrap_dispose dispose this w =
     (if this \<in> instances w then w\<lparr>instances := instances w - {this}\<rparr>
      else dispose this w)"

definition move_impl :: "'s meth" where
  "move_impl this w = w\<lparr>instances := insert this (instances w)\<rparr>"

definition moveable :: "'s proto \<Rightarrow> 's proto" where
  "moveable Class =
     (let hasDispose = False;
          (Class, hasDispose) =
            (case p_dispose Class of
               Some dispose \<Rightarrow> (Class\<lparr>p_dispose := Some (wrap_dispose dispose)\<rparr>, True)
             | None \<Rightarrow> (Class, hasDispose));
          (Class, hasDispose) =
            (case p_asyncDispose Class of
               Some asyncDispose \<Rightarrow>
                 (Class\<lparr>p_asyncDispose := Some (wrap_dispose asyncDispose)\<rparr>, True)
             | None \<Rightarrow> (Class, hasDispose))
      in if hasDispose then Class\<lparr>p_move := Some move_impl\<rparr> else Class)"

definition dispose_of :: "dispose_kind \<Rightarrow> 's proto \<Rightarrow> 's meth option" where
  "dispose_of k Class =
     (case k of SyncDispose \<Rightarrow> p_dispose Class | AsyncDispose \<Rightarrow> p_asyncDispose Class)"

definition body_of :: "dispose_kind \<Rightarrow> 's body option \<Rightarrow> 's body option \<Rightarrow> 's body option" where
  "body_of k d a = (case k of SyncDispose \<Rightarrow> d | AsyncDispose \<Rightarrow> a)"

text \<open>A sample class for concrete runs: instance state is a "released" flag.\<close>

definition release :: "bool body" where
  "release this h = h(this := True)"

definition fresh_world :: "bool world" where
  "fresh_world = \<lparr>instances = {}, heap = (\<lambda>_. False), invoked = []\<rparr>"

subsection \<open>invokeAtMostOnceForArguments\<close>

text \<open>
  Arguments are JavaScript values: objects (by identity) or primitives. The cache is a
  WeakMap whose values are WeakMaps; \<^verbatim>\<open>WeakMap.has\<close> is false on a primitive and
  \<^verbatim>\<open>WeakMap.set\<close> throws a TypeError on one.
\<close>

datatype jsval = Obj nat | Prim nat

datatype wm = WM "(nat \<times> wm) list"

datatype js_error = WrongNumberOfArguments | InvalidWeakMapKey

datatype 'r outcome = Invoked 'r | ReturnedUndefined | Threw js_error

datatype walk_result = Fresh | Seen | BadKey

text \<open>
  The \<^verbatim>\<open>for (const arg of args)\<close> loop: \<open>walk\<close> follows \<^verbatim>\<open>cacheIterator\<close> down
  the nested maps, inserting an empty map where a key is missing, and returns the updated
  cache with \<^verbatim>\<open>freshArguments\<close> (\<open>Fresh\<close> for true, \<open>Seen\<close> for false).
\<close>

fun walk :: "wm \<Rightarrow> jsval list \<Rightarrow> wm \<times> walk_result" where
  "walk c [] = (c, Seen)"
| "walk (WM m) (Obj k # args) =
     (case map_of m k of
        Some sub \<Rightarrow>
          (let (sub', r) = walk sub args in (WM (AList.update k sub' m), r))
      | None \<Rightarrow>
          (let (sub', r) = walk (WM []) args
           in (WM (AList.update k sub' m), if r = BadKey then BadKey else Fresh)))"
| "walk (WM m) (Prim p # args) = (WM m, BadKey)"

record memo =
  cache :: wm
  cacheDepth :: int

definition memo_init :: memo where
  "memo_init = \<lparr>cache = WM [], cacheDepth = -1\<rparr>"

definition invokeAtMostOnceForArguments ::
  "(jsval list \<Rightarrow> 'r) \<Rightarrow> jsval list \<Rightarrow> memo \<Rightarrow> 'r outcome \<times> memo" where
  "invokeAtMostOnceForArguments target args s =
     (let s = (if cacheDepth s = -1 then s\<lparr>cacheDepth := int (length args)\<rparr> else s)
      in if cacheDepth s \<noteq> int (length args) then (Threw WrongNumberOfArguments, s)
         else (case walk (cache s) args of
                 (c, BadKey) \<Rightarrow> (Threw InvalidWeakMapKey, s\<lparr>cache := c\<rparr>)
               | (c, Seen) \<Rightarrow> (ReturnedUndefined, s\<lparr>cache := c\<rparr>)
               | (c, Fresh) \<Rightarrow> (Invoked (target args), s\<lparr>cache := c\<rparr>)))"

text \<open>A sequence of calls of one decorated method, each on the state the last one left.\<close>

fun calls :: "(jsval list \<Rightarrow> 'r) \<Rightarrow> jsval list list \<Rightarrow> memo \<Rightarrow> 'r outcome list" where
  "calls target [] s = []"
| "calls target (args # rest) s =
     (case invokeAtMostOnceForArguments target args s of
        (r, s') \<Rightarrow> r # calls target rest s')"

fun is_Obj :: "jsval \<Rightarrow> bool" where
  "is_Obj (Obj k) = True"
| "is_Obj (Prim p) = False"

text \<open>\<open>has_path c args\<close>: the nested maps of \<open>c\<close> hold the whole chain of keys \<open>args\<close>.\<close>

fun has_path :: "wm \<Rightarrow> jsval list \<Rightarrow> bool" where
  "has_path c [] = True"
| "has_path (WM m) (Obj k # args) =
     (case map_of m k of Some sub \<Rightarrow> has_path sub args | None \<Rightarrow> False)"
| "has_path (WM m) (Prim p # args) = False"

definition sample_target :: "jsval list \<Rightarrow> nat" where
  "sample_target args = length args"

section \<open>cdp/FrameManager.ts\<close>

subsection \<open>Protocol payloads and sessions\<close>

text \<open>
  A CDPSession is known by its \<^verbatim>\<open>id()\<close>; \<open>isCdpSession\<close> is
  \<^verbatim>\<open>instanceof CdpCDPSession\<close> and \<open>targetId\<close> is \<^verbatim>\<open>_target()._targetId\<close>.
  Two sessions are the same object when the records are equal.
\<close>

record session =
  sessionId :: string
  isCdpSession :: bool
  targetId :: string

text \<open>\<^verbatim>\<open>Protocol.Page.Frame\<close>: the fields the frame manager reads.\<close>

record frame_payload =
  fp_id :: string
  fp_parentId :: "string option"
  fp_loaderId :: string
  fp_url :: string

datatype frame_tree_payload = FrameTreePayload frame_payload "frame_tree_payload list"

datatype navigation_type = Navigation | BackForwardCacheRestore

datatype detach_reason = Remove | Swap | OtherReason

text \<open>\<^verbatim>\<open>Protocol.Runtime.ExecutionContextDescription\<close>, with \<^verbatim>\<open>auxData.frameId\<close>
  and the truthiness of \<^verbatim>\<open>auxData.isDefault\<close>.\<close>

record context_payload =
  cp_id :: int
  cp_name :: string
  cp_auxFrameId :: "string option"
  cp_isDefault :: bool

record lifecycle_payload =
  lp_frameId :: string
  lp_loaderId :: string
  lp_name :: string

record target_info =
  ti_type :: string
  ti_targetId :: string
  ti_session :: session

text \<open>JavaScript truthiness of an optional string: \<^verbatim>\<open>undefined\<close> and \<^verbatim>\<open>''\<close> are falsy.\<close>

fun truthy :: "string option \<Rightarrow> bool" where
  "truthy None = False"
| "truthy (Some s) = (s \<noteq> [])"

subsection \<open>Frames, worlds and execution contexts\<close>

type_synonym ref = nat

datatype world_kind = MAIN_WORLD | PUPPETEER_WORLD

text \<open>
  \<^verbatim>\<open>new ExecutionContext(client, contextPayload, world)\<close>. The World of a context is
  named by the Frame object that owns it and the slot it fills in \<^verbatim>\<open>frame.worlds\<close>.
\<close>

record execution_context =
  ec_client :: session
  ec_payload :: context_payload
  ec_world :: "ref \<times> world_kind"

datatype wait_error = TargetClosed | Timeout | ProtocolError | InternalError

datatype wait_state = Pending | Resolved | Failed wait_error

text \<open>
  Modelled from the spec: the World class (cdp/IsolatedWorld.ts is not among the sources).
  A World "exposes the current execution-context handle [...], if any":
  one slot, filled by \<open>setContext\<close>, emptied by \<open>clearContext\<close>, tested by \<open>hasContext\<close>.
\<close>

record isolated_world =
  w_context :: "execution_context option"

text \<open>Modelled from the spec: \<^verbatim>\<open>world.hasContext()\<close>, "hold a live context".\<close>

definition hasContext :: "isolated_world \<Rightarrow> bool" where
  "hasContext w = (w_context w \<noteq> None)"

text \<open>Modelled from the spec: \<^verbatim>\<open>world.setContext(context)\<close> makes \<open>context\<close> "the current
  execution-context handle" of the World.\<close>

definition setContext :: "execution_context \<Rightarrow> isolated_world \<Rightarrow> isolated_world" where
  "setContext c w = w\<lparr>w_context := Some c\<rparr>"

text \<open>Modelled from the spec: \<^verbatim>\<open>world.clearContext()\<close>, the World "clears" its handle.\<close>

definition clearContext :: "isolated_world \<Rightarrow> isolated_world" where
  "clearContext w = w\<lparr>w_context := None\<rparr>"

text \<open>
  Modelled from the spec: the Frame class (cdp/Frame.ts is not among the sources), with
  the attributes of the spec's data model: frame id, parent frame id, URL, loader id,
  lifecycle flags, owning session, the two worlds, and the waits scoped to the frame.
\<close>

record frame =
  f_id :: string
  f_parentId :: "string option"
  f_url :: string
  f_loaderId :: string
  f_loading :: bool
  f_domContentLoaded :: bool
  f_loadFired :: bool
  f_client :: session
  f_worlds :: "world_kind \<Rightarrow> isolated_world"
  f_detached :: bool
  f_waits :: "wait_state list"

text \<open>Modelled from the spec: \<^verbatim>\<open>new CdpFrame(frameManager, frameId, parentFrameId, client)\<close>.\<close>

definition new_CdpFrame :: "string \<Rightarrow> string option \<Rightarrow> session \<Rightarrow> frame" where
  "new_CdpFrame frameId parentFrameId client =
     \<lparr>f_id = frameId, f_parentId = parentFrameId, f_url = [], f_loaderId = [],
      f_loading = False, f_domContentLoaded = False, f_loadFired = False,
      f_client = client, f_worlds = (\<lambda>_. \<lparr>w_context = None\<rparr>),
      f_detached = False, f_waits = []\<rparr>"

text \<open>Modelled from the spec: \<^verbatim>\<open>frame.updateId(id)\<close>, "its id is updated to the new
  target's id".\<close>

definition updateId :: "string \<Rightarrow> frame \<Rightarrow> frame" where
  "updateId i f = f\<lparr>f_id := i\<rparr>"

text \<open>Modelled from the spec: \<^verbatim>\<open>frame.updateClient(client, keepWorlds)\<close>, "update only
  its session binding".\<close>

definition updateClient :: "session \<Rightarrow> bool \<Rightarrow> frame \<Rightarrow> frame" where
  "updateClient c keepWorlds f = f\<lparr>f_client := c\<rparr>"

text \<open>Modelled from the spec: \<^verbatim>\<open>frame.isOOPFrame()\<close>, an out-of-process frame is one
  "requiring its own Target/Session": its session is not the frame manager's.\<close>

definition isOOPFrame :: "session \<Rightarrow> frame \<Rightarrow> bool" where
  "isOOPFrame managerClient f = (f_client f \<noteq> managerClient)"

text \<open>Modelled from the spec: \<^verbatim>\<open>frame._navigated(framePayload)\<close>. The URL and the
  loader id follow the payload; a new loader id re-enters "navigating".\<close>

definition navigated :: "frame_payload \<Rightarrow> frame \<Rightarrow> frame" where
  "navigated p f =
     (if fp_loaderId p = f_loaderId f then f\<lparr>f_url := fp_url p\<rparr>
      else f\<lparr>f_url := fp_url p, f_loaderId := fp_loaderId p,
             f_domContentLoaded := False, f_loadFired := False\<rparr>)"

text \<open>Modelled from the spec: \<^verbatim>\<open>frame._navigatedWithinDocument(url)\<close> "updates the
  Frame's URL only".\<close>

definition navigatedWithinDocument :: "string \<Rightarrow> frame \<Rightarrow> frame" where
  "navigatedWithinDocument url f = f\<lparr>f_url := url\<rparr>"

text \<open>Modelled from the spec: \<^verbatim>\<open>frame._onLifecycleEvent(loaderId, name)\<close>. The event
  "is dropped if it references a loader id that is not the Frame's current loader id".\<close>

definition frame_onLifecycleEvent :: "string \<Rightarrow> string \<Rightarrow> frame \<Rightarrow> frame" where
  "frame_onLifecycleEvent loaderId name f =
     (if loaderId \<noteq> f_loaderId f then f
      else if name = ''DOMContentLoaded'' then f\<lparr>f_domContentLoaded := True\<rparr>
      else if name = ''load'' then f\<lparr>f_loadFired := True\<rparr>
      else f)"

text \<open>Modelled from the spec: \<^verbatim>\<open>frame._onLoadingStarted()\<close> and
  \<^verbatim>\<open>frame._onLoadingStopped()\<close> drive the "loading" flag.\<close>

definition onLoadingStarted :: "frame \<Rightarrow> frame" where
  "onLoadingStarted f = f\<lparr>f_loading := True\<rparr>"

definition onLoadingStopped :: "frame \<Rightarrow> frame" where
  "onLoadingStopped f = f\<lparr>f_loading := False\<rparr>"

text \<open>Modelled from the spec: what \<^verbatim>\<open>frame[Symbol.dispose]()\<close> does to a wait. "When a
  Frame is destroyed, every Deferred scoped to it must be resolved with a terminal failure
  rather than left pending"; the failure is \<open>TargetClosed\<close> ("any pending wait on it fails
  with TargetClosed").\<close>

definition fail_pending :: "wait_state \<Rightarrow> wait_state" where
  "fail_pending w = (case w of Pending \<Rightarrow> Failed TargetClosed | _ \<Rightarrow> w)"

text \<open>Modelled from the spec: \<^verbatim>\<open>frame[Symbol.dispose]()\<close> leaves the Frame detached, with
  no wait pending.\<close>

definition dispose :: "frame \<Rightarrow> frame" where
  "dispose f = f\<lparr>f_detached := True, f_waits := map fail_pending (f_waits f)\<rparr>"

text \<open>Modelled from the spec: a caller starts a wait "scoped to" the Frame (the spec's
  "pending navigation waits"): one more Deferred of the Frame, pending.\<close>

definition startWait :: "frame \<Rightarrow> frame" where
  "startWait f = f\<lparr>f_waits := f_waits f @ [Pending]\<rparr>"

subsection \<open>The frame tree\<close>

text \<open>
  Modelled from the spec: the FrameTree class (cdp/FrameTree.ts is not among the sources):
  a "keyed mapping from frame id to Frame", the "set of child Frame ids" of every frame id
  (kept in insertion order), and the one root that is tracked. A frame is filed under the
  id and parent id it has when it is added or removed.
\<close>

record frame_tree =
  t_frames :: "string \<rightharpoonup> ref"
  t_childIds :: "string \<Rightarrow> string list"
  t_mainFrame :: "ref option"

text \<open>Modelled from the spec: \<^verbatim>\<open>new FrameTree()\<close>.\<close>

definition empty_tree :: frame_tree where
  "empty_tree = \<lparr>t_frames = Map.empty, t_childIds = (\<lambda>_. []), t_mainFrame = None\<rparr>"

text \<open>Modelled from the spec: \<^verbatim>\<open>getById(id)\<close>, lookup in the keyed mapping.\<close>

definition getById :: "frame_tree \<Rightarrow> string \<Rightarrow> ref option" where
  "getById t frameId = t_frames t frameId"

text \<open>Modelled from the spec: \<^verbatim>\<open>getMainFrame()\<close>, the root that is tracked.\<close>

definition getMainFrame :: "frame_tree \<Rightarrow> ref option" where
  "getMainFrame t = t_mainFrame t"

text \<open>Modelled from the spec: \<^verbatim>\<open>addFrame(frame)\<close>. The frame is filed under its id; with a
  parent id it joins the children of that id; without one it is "a root" and becomes the
  tracked root when none is tracked ("exactly one root tracked").\<close>

definition tree_addFrame :: "ref \<Rightarrow> frame \<Rightarrow> frame_tree \<Rightarrow> frame_tree" where
  "tree_addFrame r f t =
     (let t = t\<lparr>t_frames := (t_frames t)(f_id f \<mapsto> r)\<rparr>
      in case f_parentId f of
           Some p \<Rightarrow>
             (if p \<noteq> [] then
                t\<lparr>t_childIds := (t_childIds t)
                     (p := (if f_id f \<in> set (t_childIds t p) then t_childIds t p
                            else t_childIds t p @ [f_id f]))\<rparr>
              else if t_mainFrame t = None then t\<lparr>t_mainFrame := Some r\<rparr> else t)
         | None \<Rightarrow> (if t_mainFrame t = None then t\<lparr>t_mainFrame := Some r\<rparr> else t))"

text \<open>Modelled from the spec: \<^verbatim>\<open>removeFrame(frame)\<close> "removes \<open>frame\<close> and satisfies no
  pending waits": the entry of its id goes, it leaves the children of its parent id, and
  the tracked root is forgotten when it is this frame.\<close>

definition tree_removeFrame :: "ref \<Rightarrow> frame \<Rightarrow> frame_tree \<Rightarrow> frame_tree" where
  "tree_removeFrame r f t =
     (let t = t\<lparr>t_frames := (t_frames t)(f_id f := None)\<rparr>
      in case f_parentId f of
           Some p \<Rightarrow>
             (if p \<noteq> [] then
                t\<lparr>t_childIds := (t_childIds t)(p := removeAll (f_id f) (t_childIds t p))\<rparr>
              else if t_mainFrame t = Some r then t\<lparr>t_mainFrame := None\<rparr> else t)
         | None \<Rightarrow> (if t_mainFrame t = Some r then t\<lparr>t_mainFrame := None\<rparr> else t))"

text \<open>Modelled from the spec: the children of a frame id, "always currently-live Frames
  in the same Frame Tree": the child ids that resolve.\<close>

definition tree_childFrames :: "frame_tree \<Rightarrow> string \<Rightarrow> ref list" where
  "tree_childFrames t frameId = List.map_filter (t_frames t) (t_childIds t frameId)"

subsection \<open>The frame manager\<close>

text \<open>Events emitted on the frame manager (\<open>FM_\<close>) and on a frame (\<open>F_\<close>).\<close>

datatype notification =
    FM_FrameAttached ref
  | FM_FrameNavigated ref
  | FM_FrameDetached ref
  | FM_FrameSwapped ref
  | FM_LifecycleEvent ref
  | FM_FrameNavigatedWithinDocument ref
  | F_FrameNavigated ref navigation_type
  | F_FrameNavigatedWithinDocument ref
  | F_FrameDetached ref
  | F_FrameSwapped ref
  | F_FrameSwappedByActivation ref
  | F_LifecycleEvent ref

text \<open>
  The state of a FrameManager. \<open>objs\<close> is the store of CdpFrame objects (\<open>nextRef\<close> the
  next unused reference), so that a Frame keeps its identity while the tree files it under
  another id. \<open>contextIdToContext\<close> is keyed by the pair that the source joins into
  \<^verbatim>\<open>`${session.id()}:${contextId}`\<close>. \<open>waitRequests\<close> are the calls of
  \<^verbatim>\<open>#onFrameNavigated\<close> suspended in \<^verbatim>\<open>waitForFrame\<close>; \<open>microtasks\<close> are those whose
  frame is there and whose remainder runs when the current handler has returned.
  \<open>awaitingSwap\<close> holds the pending \<^verbatim>\<open>swapped\<close> Deferreds of \<^verbatim>\<open>#onClientDisconnect\<close>,
  oldest first: the main frame each listens on and the timeout (in ms) it was created
  with. \<open>emitted\<close> is the log of notifications.
\<close>

record fm =
  client :: session
  contextIdToContext :: "((string \<times> int) \<times> execution_context) list"
  frameTree :: frame_tree
  frameNavigatedReceived :: "string set"
  objs :: "ref \<Rightarrow> frame"
  nextRef :: ref
  waitRequests :: "(frame_payload \<times> navigation_type) list"
  microtasks :: "(ref \<times> frame_payload \<times> navigation_type) list"
  awaitingSwap :: "(ref \<times> nat) list"
  emitted :: "notification list"

definition TIME_FOR_WAITING_FOR_SWAP :: nat where
  "TIME_FOR_WAITING_FOR_SWAP = 100"

text \<open>Modelled from the spec: the "reserved utility-world name" (common/util.ts is not
  among the sources).\<close>

definition UTILITY_WORLD_NAME :: string where
  "UTILITY_WORLD_NAME = ''__puppeteer_utility_world__''"

definition new_FrameManager :: "session \<Rightarrow> fm" where
  "new_FrameManager c =
     \<lparr>client = c, contextIdToContext = [], frameTree = empty_tree,
      frameNavigatedReceived = {}, objs = (\<lambda>_. new_CdpFrame [] None c), nextRef = 0,
      waitRequests = [], microtasks = [], awaitingSwap = [], emitted = []\<rparr>"

definition emit :: "notification \<Rightarrow> fm \<Rightarrow> fm" where
  "emit n st = st\<lparr>emitted := emitted st @ [n]\<rparr>"

definition update_frame :: "ref \<Rightarrow> (frame \<Rightarrow> frame) \<Rightarrow> fm \<Rightarrow> fm" where
  "update_frame r g st = st\<lparr>objs := (objs st)(r := g (objs st r))\<rparr>"

definition update_world :: "ref \<times> world_kind \<Rightarrow> (isolated_world \<Rightarrow> isolated_world) \<Rightarrow> fm \<Rightarrow> fm" where
  "update_world w g st =
     update_frame (fst w) (\<lambda>f. f\<lparr>f_worlds := (f_worlds f)(snd w := g (f_worlds f (snd w)))\<rparr>) st"

text \<open>\<^verbatim>\<open>frame(frameId)\<close>: \<^verbatim>\<open>this._frameTree.getById(frameId) || null\<close>.\<close>

definition frame_of :: "fm \<Rightarrow> string \<Rightarrow> ref option" where
  "frame_of st frameId = getById (frameTree st) frameId"

definition mainFrame :: "fm \<Rightarrow> ref option" where
  "mainFrame st = getMainFrame (frameTree st)"

text \<open>Modelled from the spec: \<^verbatim>\<open>frame.childFrames()\<close>, the live children filed under the
  frame's current id.\<close>

definition childFrames :: "fm \<Rightarrow> ref \<Rightarrow> ref list" where
  "childFrames st r = tree_childFrames (frameTree st) (f_id (objs st r))"

text \<open>\<^verbatim>\<open>this._frameTree.addFrame(frame)\<close>. Modelled from the spec: besides filing the
  frame, \<^verbatim>\<open>addFrame\<close> is to "resolve any pending waitForFrame(frameId)"; the calls so
  woken continue as microtasks.\<close>

definition addFrame :: "ref \<Rightarrow> fm \<Rightarrow> fm" where
  "addFrame r st =
     (let woken = filter (\<lambda>(p, n). fp_id p = f_id (objs st r)) (waitRequests st)
      in st\<lparr>frameTree := tree_addFrame r (objs st r) (frameTree st),
            waitRequests := filter (\<lambda>(p, n). fp_id p \<noteq> f_id (objs st r)) (waitRequests st),
            microtasks := microtasks st @ map (\<lambda>(p, n). (r, p, n)) woken\<rparr>)"

text \<open>\<^verbatim>\<open>this._frameTree.removeFrame(frame)\<close>.\<close>

definition removeFrame :: "ref \<Rightarrow> fm \<Rightarrow> fm" where
  "removeFrame r st = st\<lparr>frameTree := tree_removeFrame r (objs st r) (frameTree st)\<rparr>"

text \<open>\<^verbatim>\<open>new CdpFrame(...)\<close>: the new object takes the next unused reference.\<close>

definition allocate :: "frame \<Rightarrow> fm \<Rightarrow> ref \<times> fm" where
  "allocate f st = (nextRef st, st\<lparr>objs := (objs st)(nextRef st := f), nextRef := Suc (nextRef st)\<rparr>)"

text \<open>A loop over a list of frames whose body may not return.\<close>

fun for_each :: "('a \<Rightarrow> fm \<Rightarrow> fm option) \<Rightarrow> 'a list \<Rightarrow> fm \<Rightarrow> fm option" where
  "for_each body [] st = Some st"
| "for_each body (x # xs) st =
     (case body x st of None \<Rightarrow> None | Some st' \<Rightarrow> for_each body xs st')"

text \<open>
  \<^verbatim>\<open>#removeFramesRecursively(frame)\<close>. The recursion follows the child ids of the tree
  and does not end when they run in a cycle; the first argument bounds its depth and
  \<open>None\<close> is returned when the bound is reached.
\<close>

fun removeFramesRecursively :: "nat \<Rightarrow> ref \<Rightarrow> fm \<Rightarrow> fm option" where
  "removeFramesRecursively 0 r st = None"
| "removeFramesRecursively (Suc n) r st =
     (case for_each (removeFramesRecursively n) (childFrames st r) st of
        None \<Rightarrow> None
      | Some st \<Rightarrow>
          Some (emit (F_FrameDetached r)
                 (emit (FM_FrameDetached r)
                   (removeFrame r (update_frame r dispose st)))))"

text \<open>
  \<^verbatim>\<open>frame = await this._frameTree.waitForFrame(frameId)\<close>. Modelled from the spec:
  \<^verbatim>\<open>waitForFrame\<close> is "satisfied either immediately or when the matching attach/add
  occurs". With the frame in the tree the remainder of \<^verbatim>\<open>#onFrameNavigated\<close> is queued
  as a microtask, otherwise the call stays suspended until \<open>addFrame\<close> files a frame under
  that id.
\<close>

definition waitForFrame :: "frame_payload \<Rightarrow> navigation_type \<Rightarrow> fm \<Rightarrow> fm" where
  "waitForFrame p n st =
     (case frame_of st (fp_id p) of
        Some r \<Rightarrow> st\<lparr>microtasks := microtasks st @ [(r, p, n)]\<rparr>
      | None \<Rightarrow> st\<lparr>waitRequests := waitRequests st @ [(p, n)]\<rparr>)"

text \<open>The remainder of \<^verbatim>\<open>#onFrameNavigated\<close> after the \<^verbatim>\<open>await\<close>.\<close>

definition onFrameNavigated_resume :: "ref \<times> frame_payload \<times> navigation_type \<Rightarrow> fm \<Rightarrow> fm" where
  "onFrameNavigated_resume task st =
     (case task of (r, p, n) \<Rightarrow>
        emit (F_FrameNavigated r n)
          (emit (FM_FrameNavigated r) (update_frame r (navigated p) st)))"

definition runMicrotasks :: "fm \<Rightarrow> fm" where
  "runMicrotasks st = fold onFrameNavigated_resume (microtasks st) (st\<lparr>microtasks := []\<rparr>)"

definition onFrameAttached :: "session \<Rightarrow> string \<Rightarrow> string \<Rightarrow> fm \<Rightarrow> fm" where
  "onFrameAttached session frameId parentFrameId st =
     (case frame_of st frameId of
        Some r \<Rightarrow>
          (if isOOPFrame (client st) (objs st r)
           then update_frame r (updateClient session False) st
           else st)
      | None \<Rightarrow>
          (case allocate (new_CdpFrame frameId (Some parentFrameId) session) st of
             (r, st) \<Rightarrow> emit (FM_FrameAttached r) (addFrame r st)))"

definition onFrameNavigated :: "nat \<Rightarrow> frame_payload \<Rightarrow> navigation_type \<Rightarrow> fm \<Rightarrow> fm option" where
  "onFrameNavigated fuel framePayload navigationType st =
     (let frameId = fp_id framePayload;
          isMainFrame = \<not> truthy (fp_parentId framePayload);
          frame = getById (frameTree st) frameId
      in case (case frame of
                 Some r \<Rightarrow> for_each (removeFramesRecursively fuel) (childFrames st r) st
               | None \<Rightarrow> Some st) of
           None \<Rightarrow> None
         | Some st \<Rightarrow>
             Some (waitForFrame framePayload navigationType
               (if isMainFrame then
                  (case frame of
                     Some r \<Rightarrow>
                       addFrame r (update_frame r (\<lambda>f. f\<lparr>f_id := frameId\<rparr>) (removeFrame r st))
                   | None \<Rightarrow>
                       (case allocate (new_CdpFrame frameId None (client st)) st of
                          (r, st) \<Rightarrow> addFrame r st))
                else st)))"

definition onFrameNavigatedWithinDocument :: "string \<Rightarrow> string \<Rightarrow> fm \<Rightarrow> fm" where
  "onFrameNavigatedWithinDocument frameId url st =
     (case frame_of st frameId of
        None \<Rightarrow> st
      | Some r \<Rightarrow>
          emit (F_FrameNavigated r Navigation)
            (emit (FM_FrameNavigated r)
              (emit (F_FrameNavigatedWithinDocument r)
                (emit (FM_FrameNavigatedWithinDocument r)
                  (update_frame r (navigatedWithinDocument url) st)))))"

definition onFrameDetached :: "nat \<Rightarrow> string \<Rightarrow> detach_reason \<Rightarrow> fm \<Rightarrow> fm option" where
  "onFrameDetached fuel frameId reason st =
     (case frame_of st frameId of
        None \<Rightarrow> Some st
      | Some r \<Rightarrow>
          (case reason of
             Remove \<Rightarrow> removeFramesRecursively fuel r st
           | Swap \<Rightarrow> Some (emit (F_FrameSwapped r) (emit (FM_FrameSwapped r) st))
           | OtherReason \<Rightarrow> Some st))"

definition onLifecycleEvent :: "lifecycle_payload \<Rightarrow> fm \<Rightarrow> fm" where
  "onLifecycleEvent event st =
     (case frame_of st (lp_frameId event) of
        None \<Rightarrow> st
      | Some r \<Rightarrow>
          emit (F_LifecycleEvent r)
            (emit (FM_LifecycleEvent r)
              (update_frame r (frame_onLifecycleEvent (lp_loaderId event) (lp_name event)) st)))"

definition onFrameStartedLoading :: "string \<Rightarrow> fm \<Rightarrow> fm" where
  "onFrameStartedLoading frameId st =
     (case frame_of st frameId of
        None \<Rightarrow> st
      | Some r \<Rightarrow> update_frame r onLoadingStarted st)"

definition onFrameStoppedLoading :: "string \<Rightarrow> fm \<Rightarrow> fm" where
  "onFrameStoppedLoading frameId st =
     (case frame_of st frameId of
        None \<Rightarrow> st
      | Some r \<Rightarrow>
          emit (F_LifecycleEvent r)
            (emit (FM_LifecycleEvent r) (update_frame r onLoadingStopped st)))"

definition context_key :: "session \<Rightarrow> int \<Rightarrow> string \<times> int" where
  "context_key session contextId = (sessionId session, contextId)"

definition getExecutionContextById :: "fm \<Rightarrow> int \<Rightarrow> session \<Rightarrow> execution_context option" where
  "getExecutionContextById st contextId session =
     map_of (contextIdToContext st) (context_key session contextId)"

text \<open>The world that \<^verbatim>\<open>#onExecutionContextCreated\<close> picks for a context of a frame
  of the event's session.\<close>

definition pick_world :: "context_payload \<Rightarrow> ref \<Rightarrow> frame \<Rightarrow> (ref \<times> world_kind) option" where
  "pick_world contextPayload r f =
     (if cp_isDefault contextPayload then Some (r, MAIN_WORLD)
      else if cp_name contextPayload = UTILITY_WORLD_NAME
              \<and> \<not> hasContext (f_worlds f PUPPETEER_WORLD)
      then Some (r, PUPPETEER_WORLD)
      else None)"

definition onExecutionContextCreated :: "context_payload \<Rightarrow> session \<Rightarrow> fm \<Rightarrow> fm" where
  "onExecutionContextCreated contextPayload session st =
     (case (case cp_auxFrameId contextPayload of
              Some frameId \<Rightarrow> frame_of st frameId
            | None \<Rightarrow> None) of
        None \<Rightarrow> st
      | Some r \<Rightarrow>
          (if f_client (objs st r) \<noteq> session then st
           else case pick_world contextPayload r (objs st r) of
                  None \<Rightarrow> st
                | Some world \<Rightarrow>
                    (let context = \<lparr>ec_client = f_client (objs st r),
                                    ec_payload = contextPayload, ec_world = world\<rparr>;
                         st = update_world world (setContext context) st
                     in st\<lparr>contextIdToContext :=
                             AList.update (context_key session (cp_id contextPayload)) context
                               (contextIdToContext st)\<rparr>)))"

definition onExecutionContextDestroyed :: "int \<Rightarrow> session \<Rightarrow> fm \<Rightarrow> fm" where
  "onExecutionContextDestroyed executionContextId session st =
     (let key = context_key session executionContextId
      in case map_of (contextIdToContext st) key of
           None \<Rightarrow> st
         | Some context \<Rightarrow>
             update_world (ec_world context) clearContext
               (st\<lparr>contextIdToContext := AList.delete key (contextIdToContext st)\<rparr>))"

definition clear_entry :: "session \<Rightarrow> (string \<times> int) \<times> execution_context \<Rightarrow> fm \<Rightarrow> fm" where
  "clear_entry session entry st =
     (case entry of (key, context) \<Rightarrow>
        if ec_client context \<noteq> session then st
        else (update_world (ec_world context) clearContext st)
               \<lparr>contextIdToContext := AList.delete key (contextIdToContext st)\<rparr>)"

definition onExecutionContextsCleared :: "session \<Rightarrow> fm \<Rightarrow> fm" where
  "onExecutionContextsCleared session st = fold (clear_entry session) (contextIdToContext st) st"

text \<open>\<^verbatim>\<open>#handleFrameTree(session, frameTree)\<close>, the reply to \<^verbatim>\<open>Page.getFrameTree\<close>.\<close>

fun handleFrameTree :: "nat \<Rightarrow> session \<Rightarrow> frame_tree_payload \<Rightarrow> fm \<Rightarrow> fm option"
  and handleFrameTrees :: "nat \<Rightarrow> session \<Rightarrow> frame_tree_payload list \<Rightarrow> fm \<Rightarrow> fm option" where
  "handleFrameTree fuel session (FrameTreePayload frame children) st =
     (let st = (case fp_parentId frame of
                  Some parentId \<Rightarrow>
                    (if parentId \<noteq> [] then onFrameAttached session (fp_id frame) parentId st
                     else st)
                | None \<Rightarrow> st)
      in case (if fp_id frame \<notin> frameNavigatedReceived st
               then onFrameNavigated fuel frame Navigation st
               else Some (st\<lparr>frameNavigatedReceived := frameNavigatedReceived st - {fp_id frame}\<rparr>)) of
           None \<Rightarrow> None
         | Some st \<Rightarrow> handleFrameTrees fuel session children st)"
| "handleFrameTrees fuel session [] st = Some st"
| "handleFrameTrees fuel session (child # rest) st =
     (case handleFrameTree fuel session child st of
        None \<Rightarrow> None
      | Some st \<Rightarrow> handleFrameTrees fuel session rest st)"

text \<open>
  \<^verbatim>\<open>#onClientDisconnect()\<close> up to \<^verbatim>\<open>await swapped.valueOrThrow()\<close>: the children of the
  main frame go at once, the main frame is held and a \<^verbatim>\<open>swapped\<close> Deferred waits on it.
\<close>

definition onClientDisconnect :: "nat \<Rightarrow> fm \<Rightarrow> fm option" where
  "onClientDisconnect fuel st =
     (case mainFrame st of
        None \<Rightarrow> Some st
      | Some r \<Rightarrow>
          (case for_each (removeFramesRecursively fuel) (childFrames st r) st of
             None \<Rightarrow> None
           | Some st \<Rightarrow>
               Some (st\<lparr>awaitingSwap := awaitingSwap st @ [(r, TIME_FOR_WAITING_FOR_SWAP)]\<rparr>)))"

text \<open>
  The \<^verbatim>\<open>catch\<close> branch of \<^verbatim>\<open>#onClientDisconnect()\<close>: the oldest pending Deferred on main
  frame \<open>r\<close> has timed out without having been resolved. Whatever has happened to the tree
  since the disconnect, \<^verbatim>\<open>#removeFramesRecursively(mainFrame)\<close> runs on the tree as it is
  now. Without a pending Deferred on \<open>r\<close> there is no timeout to handle.
\<close>

definition onSwapTimeout :: "nat \<Rightarrow> ref \<Rightarrow> fm \<Rightarrow> fm option" where
  "onSwapTimeout fuel r st =
     (case find (\<lambda>w. fst w = r) (awaitingSwap st) of
        None \<Rightarrow> Some st
      | Some w \<Rightarrow>
          removeFramesRecursively fuel r (st\<lparr>awaitingSwap := remove1 w (awaitingSwap st)\<rparr>))"

text \<open>\<^verbatim>\<open>frame.emit(FrameEvent.FrameSwappedByActivation)\<close>: the listeners that
  \<^verbatim>\<open>#onClientDisconnect\<close> left on the frame resolve their Deferreds.\<close>

definition emit_FrameSwappedByActivation :: "ref \<Rightarrow> fm \<Rightarrow> fm" where
  "emit_FrameSwappedByActivation r st =
     (emit (F_FrameSwappedByActivation r) st)
       \<lparr>awaitingSwap := filter (\<lambda>w. fst w \<noteq> r) (awaitingSwap st)\<rparr>"

datatype fm_error = AssertionError

text \<open>The rebinding of the main frame \<open>r\<close> in \<^verbatim>\<open>swapFrameTree\<close> (the body of
  \<^verbatim>\<open>if (frame) { ... }\<close>).\<close>

definition swapFrameTree_rebind :: "session \<Rightarrow> ref \<Rightarrow> fm \<Rightarrow> fm" where
  "swapFrameTree_rebind c r st =
     (let st = st\<lparr>frameNavigatedReceived := insert (targetId c) (frameNavigatedReceived st)\<rparr>;
          st = removeFrame r st;
          st = update_frame r (updateId (targetId c)) st;
          st = update_world (r, MAIN_WORLD) clearContext st;
          st = update_world (r, PUPPETEER_WORLD) clearContext st;
          st = addFrame r st
      in update_frame r (updateClient c True) st)"

text \<open>
  \<^verbatim>\<open>swapFrameTree(client)\<close> up to its first \<^verbatim>\<open>await\<close>: the contexts of the old session are
  cleared, the frame manager takes the new session, and the main frame, if there is one,
  is rebound. The result is the error raised, if any, the local \<^verbatim>\<open>frame\<close> that the rest of
  the call will use, and the state. The call is then suspended in
  \<^verbatim>\<open>await this.initialize(client)\<close> and \<^verbatim>\<open>await this.#networkManager.addClient(client)\<close>;
  while it is, the event loop delivers other events (the replies to the commands of
  \<^verbatim>\<open>initialize\<close>, with the frame tree among them, the timeout of a swap wait, ...).
\<close>

definition swapFrameTree :: "session \<Rightarrow> fm \<Rightarrow> fm_error option \<times> ref option \<times> fm" where
  "swapFrameTree c st =
     (let st = onExecutionContextsCleared (client st) st;
          st = st\<lparr>client := c\<rparr>
      in if \<not> isCdpSession c then (Some AssertionError, None, st)
         else (case mainFrame st of
                 Some r \<Rightarrow> (None, Some r, swapFrameTree_rebind c r st)
               | None \<Rightarrow> (None, None, st)))"

text \<open>The rest of \<^verbatim>\<open>swapFrameTree(client)\<close>, run when both awaits have returned:
  \<^verbatim>\<open>if (frame) { frame.emit(FrameEvent.FrameSwappedByActivation, undefined) }\<close>, on the
  state as it is by then.\<close>

definition swapFrameTree_resume :: "ref option \<Rightarrow> fm \<Rightarrow> fm" where
  "swapFrameTree_resume frame st =
     (case frame of
        Some r \<Rightarrow> emit_FrameSwappedByActivation r st
      | None \<Rightarrow> st)"

definition onAttachedToTarget :: "target_info \<Rightarrow> fm \<Rightarrow> fm" where
  "onAttachedToTarget target st =
     (if ti_type target \<noteq> ''iframe'' then st
      else case frame_of st (ti_targetId target) of
             Some r \<Rightarrow> update_frame r (updateClient (ti_session target) False) st
           | None \<Rightarrow> st)"

subsection \<open>Event delivery\<close>

datatype event =
    Page_frameAttached session string string
  | Page_frameNavigated frame_payload navigation_type
  | Page_navigatedWithinDocument string string
  | Page_frameDetached string detach_reason
  | Page_frameStartedLoading string
  | Page_frameStoppedLoading string
  | Runtime_executionContextCreated context_payload session
  | Runtime_executionContextDestroyed int session
  | Runtime_executionContextsCleared session
  | Page_lifecycleEvent lifecycle_payload
  | Page_getFrameTree_reply session frame_tree_payload
  | AttachedToTarget target_info
  | Disconnected
  | SwapTimeout ref
  | Swapped session
  | SwapInitialized "ref option"

text \<open>The listener of each event, as \<^verbatim>\<open>setupEventListeners\<close> and the constructor
  register them. \<open>Swapped c\<close> is the call \<^verbatim>\<open>swapFrameTree(c)\<close> up to its first await and
  \<open>SwapInitialized frame\<close> the return of its awaits, for the call whose local \<^verbatim>\<open>frame\<close> is
  \<open>frame\<close>; \<open>SwapTimeout r\<close> is the timeout of a swap wait on \<open>r\<close>.\<close>

fun listener :: "nat \<Rightarrow> event \<Rightarrow> fm \<Rightarrow> fm option" where
  "listener fuel (Page_frameAttached session frameId parentFrameId) st =
     Some (onFrameAttached session frameId parentFrameId st)"
| "listener fuel (Page_frameNavigated frame navigationType) st =
     onFrameNavigated fuel frame navigationType
       (st\<lparr>frameNavigatedReceived := insert (fp_id frame) (frameNavigatedReceived st)\<rparr>)"
| "listener fuel (Page_navigatedWithinDocument frameId url) st =
     Some (onFrameNavigatedWithinDocument frameId url st)"
| "listener fuel (Page_frameDetached frameId reason) st = onFrameDetached fuel frameId reason st"
| "listener fuel (Page_frameStartedLoading frameId) st = Some (onFrameStartedLoading frameId st)"
| "listener fuel (Page_frameStoppedLoading frameId) st = Some (onFrameStoppedLoading frameId st)"
| "listener fuel (Runtime_executionContextCreated context session) st =
     Some (onExecutionContextCreated context session st)"
| "listener fuel (Runtime_executionContextDestroyed executionContextId session) st =
     Some (onExecutionContextDestroyed executionContextId session st)"
| "listener fuel (Runtime_executionContextsCleared session) st =
     Some (onExecutionContextsCleared session st)"
| "listener fuel (Page_lifecycleEvent event) st = Some (onLifecycleEvent event st)"
| "listener fuel (Page_getFrameTree_reply session reply) st =
     handleFrameTree fuel session reply st"
| "listener fuel (AttachedToTarget target) st = Some (onAttachedToTarget target st)"
| "listener fuel Disconnected st = onClientDisconnect fuel st"
| "listener fuel (SwapTimeout r) st = onSwapTimeout fuel r st"
| "listener fuel (Swapped c) st = Some (snd (snd (swapFrameTree c st)))"
| "listener fuel (SwapInitialized frame) st = Some (swapFrameTree_resume frame st)"

text \<open>One turn of the event loop: the listener, then the microtasks it left.\<close>

definition dispatch :: "nat \<Rightarrow> event \<Rightarrow> fm \<Rightarrow> fm option" where
  "dispatch fuel ev st = map_option runMicrotasks (listener fuel ev st)"

fun dispatch_all :: "nat \<Rightarrow> event list \<Rightarrow> fm \<Rightarrow> fm option" where
  "dispatch_all fuel [] st = Some st"
| "dispatch_all fuel (ev # evs) st =
     (case dispatch fuel ev st of None \<Rightarrow> None | Some st \<Rightarrow> dispatch_all fuel evs st)"

subsection \<open>Sample sessions, payloads and pages\<close>

definition sessionA :: session where
  "sessionA = \<lparr>sessionId = ''S0'', isCdpSession = True, targetId = ''A''\<rparr>"

definition sessionB :: session where
  "sessionB = \<lparr>sessionId = ''S1'', isCdpSession = True, targetId = ''T''\<rparr>"

definition main_payload :: "string \<Rightarrow> string \<Rightarrow> frame_payload" where
  "main_payload frameId loaderId =
     \<lparr>fp_id = frameId, fp_parentId = None, fp_loaderId = loaderId, fp_url = ''http://'' @ loaderId\<rparr>"

definition utility_payload :: "int \<Rightarrow> string \<Rightarrow> context_payload" where
  "utility_payload contextId frameId =
     \<lparr>cp_id = contextId, cp_name = UTILITY_WORLD_NAME, cp_auxFrameId = Some frameId,
      cp_isDefault = False\<rparr>"

text \<open>A page whose main frame \<open>A\<close> has been navigated once (loader \<open>L1\<close>).\<close>

definition page_A :: fm where
  "page_A = runMicrotasks (the (listener 1 (Page_frameNavigated (main_payload ''A'' ''L1'') Navigation)
                 (new_FrameManager sessionA)))"

definition attached_B :: fm where
  "attached_B = onFrameAttached sessionA ''B'' ''A'' page_A"

subsection \<open>Subtrees of the frame tree\<close>

text \<open>
  A finite tree of Frame objects. \<open>shape st t\<close> says that \<open>t\<close> is the part of the frame
  tree of \<open>st\<close> below its root: the children of every node are, in order, what
  \<^verbatim>\<open>childFrames()\<close> returns for it. \<open>postorder\<close> lists the nodes deepest-first, every
  frame after all of its descendants; \<open>descendants\<close> leaves the root out.
\<close>

datatype ftree = Node ref "ftree list"

fun root :: "ftree \<Rightarrow> ref" where
  "root (Node r ts) = r"

fun postorder :: "ftree \<Rightarrow> ref list" where
  "postorder (Node r ts) = concat (map postorder ts) @ [r]"

fun descendants :: "ftree \<Rightarrow> ref list" where
  "descendants (Node r ts) = concat (map postorder ts)"

fun shape :: "fm \<Rightarrow> ftree \<Rightarrow> bool" where
  "shape st (Node r ts) = (childFrames st r = map root ts \<and> list_all (shape st) ts)"

text \<open>Every frame of the tree is filed under the id it has.\<close>

definition keyed :: "fm \<Rightarrow> bool" where
  "keyed st = (\<forall>i x. frame_of st i = Some x \<longrightarrow> f_id (objs st x) = i)"

definition detach_notes :: "ref list \<Rightarrow> notification list" where
  "detach_notes xs = concat (map (\<lambda>x. [FM_FrameDetached x, F_FrameDetached x]) xs)"

fun is_FM_FrameDetached :: "notification \<Rightarrow> bool" where
  "is_FM_FrameDetached (FM_FrameDetached x) = True"
| "is_FM_FrameDetached _ = False"

text \<open>\<open>removed st xs st'\<close>: \<open>st'\<close> is \<open>st\<close> after the frames \<open>xs\<close> have been disposed of and
  taken out of the tree, in that order.\<close>

definition removed :: "fm \<Rightarrow> ref list \<Rightarrow> fm \<Rightarrow> bool" where
  "removed st xs st' =
     (emitted st' = emitted st @ detach_notes xs
    \<and> (\<forall>i. frame_of st' i =
             (if i \<in> (\<lambda>x. f_id (objs st x)) ` set xs then None else frame_of st i))
    \<and> (\<forall>y. objs st' y = (if y \<in> set xs then dispose (objs st y) else objs st y))
    \<and> (\<forall>y. childFrames st' y = filter (\<lambda>c. c \<notin> set xs) (childFrames st y))
    \<and> (\<forall>m. mainFrame st = Some m \<and> m \<notin> set xs \<longrightarrow> mainFrame st' = Some m)
    \<and> awaitingSwap st' = awaitingSwap st
    \<and> client st' = client st
    \<and> nextRef st' = nextRef st
    \<and> contextIdToContext st' = contextIdToContext st
    \<and> microtasks st' = microtasks st
    \<and> waitRequests st' = waitRequests st
    \<and> frameNavigatedReceived st' = frameNavigatedReceived st)"

text \<open>A page with main frame \<open>A\<close>, its child \<open>B\<close> and \<open>B\<close>'s child \<open>C\<close>.\<close>

definition family :: fm where
  "family = onFrameAttached sessionA ''C'' ''B'' (onFrameAttached sessionA ''B'' ''A'' page_A)"

text \<open>The same page when a caller has started a wait on the main frame; then its session
  has disconnected (\<open>held_A\<close>); then, with the swap wait still pending, a frame \<open>D\<close> has been
  attached under \<open>A\<close> (\<open>late_child\<close>).\<close>

definition waiting_family :: fm where
  "waiting_family = update_frame 0 startWait family"

definition held_A :: fm where
  "held_A = the (onClientDisconnect 3 waiting_family)"

definition late_child :: fm where
  "late_child = onFrameAttached sessionA ''D'' ''A'' held_A"

subsection \<open>What a World holds\<close>

text \<open>
  \<open>held st x k\<close> is the execution context in slot \<open>k\<close> of \<^verbatim>\<open>frame.worlds\<close> of Frame object
  \<open>x\<close>: a World has this one slot, so it holds one context or none. \<open>no_rebind st st'\<close>
  says that from \<open>st\<close> to \<open>st'\<close> every World has kept its context or lost it.
\<close>

definition held :: "fm \<Rightarrow> ref \<Rightarrow> world_kind \<Rightarrow> execution_context option" where
  "held st x k = w_context (f_worlds (objs st x) k)"

definition no_rebind :: "fm \<Rightarrow> fm \<Rightarrow> bool" where
  "no_rebind st st' = (\<forall>x k. held st' x k = None \<or> held st' x k = held st x k)"

definition keeps_worlds :: "(frame \<Rightarrow> frame) \<Rightarrow> bool" where
  "keeps_worlds g = (\<forall>f. f_worlds (g f) = f_worlds f)"

text \<open>\<open>bound_by ev st x k c\<close>: \<open>ev\<close> is a context-created event, of the session of Frame \<open>x\<close>
  (which its \<^verbatim>\<open>auxData.frameId\<close> names), for which \<^verbatim>\<open>#onExecutionContextCreated\<close>
  constructs the ExecutionContext \<open>c\<close> on World \<open>k\<close> of \<open>x\<close>: the main World for a default
  context, the utility World for one with the reserved name.\<close>

fun bound_by :: "event \<Rightarrow> fm \<Rightarrow> ref \<Rightarrow> world_kind \<Rightarrow> execution_context \<Rightarrow> bool" where
  "bound_by (Runtime_executionContextCreated p s) st x k c =
     ((case cp_auxFrameId p of Some frameId \<Rightarrow> frame_of st frameId = Some x | None \<Rightarrow> False)
      \<and> f_client (objs st x) = s
      \<and> (case k of
            MAIN_WORLD \<Rightarrow> cp_isDefault p
          | PUPPETEER_WORLD \<Rightarrow> \<not> cp_isDefault p \<and> cp_name p = UTILITY_WORLD_NAME)
      \<and> c = \<lparr>ec_client = s, ec_payload = p, ec_world = (x, k)\<rparr>)"
| "bound_by _ st x k c = False"

text \<open>Page \<open>A\<close> after a first utility-world context (id 1) has been bound.\<close>

definition utility_bound_A :: fm where
  "utility_bound_A = onExecutionContextCreated (utility_payload 1 ''A'') sessionA page_A"

text \<open>\<open>bound_to st w\<close>: the registered ExecutionContexts whose World (\<^verbatim>\<open>context._world\<close>) is
  \<open>w\<close>, in the order of the registry.\<close>

definition bound_to :: "fm \<Rightarrow> ref \<times> world_kind \<Rightarrow> execution_context list" where
  "bound_to st w = filter (\<lambda>c. ec_world c = w) (map snd (contextIdToContext st))"

definition default_payload :: "int \<Rightarrow> string \<Rightarrow> context_payload" where
  "default_payload contextId frameId =
     \<lparr>cp_id = contextId, cp_name = [], cp_auxFrameId = Some frameId, cp_isDefault = True\<rparr>"

text \<open>Page \<open>A\<close> after two default contexts (ids 1 and 2) have been created for its main
  frame, none of them destroyed.\<close>

definition two_defaults_A :: fm where
  "two_defaults_A =
     onExecutionContextCreated (default_payload 2 ''A'') sessionA
       (onExecutionContextCreated (default_payload 1 ''A'') sessionA page_A)"

subsection \<open>Frames announced as attached\<close>

text \<open>
  \<open>newly_attached st st'\<close>: the Frames for which \<open>FrameAttached\<close> is emitted on the frame
  manager between \<open>st\<close> and a later state \<open>st'\<close>, in order. \<open>attach_fresh st st'\<close> says that
  from \<open>st\<close> to \<open>st'\<close> the log of notifications has only grown, no reference has been given
  back, and every Frame so announced was constructed in between.
\<close>

fun attached :: "notification \<Rightarrow> ref list" where
  "attached (FM_FrameAttached x) = [x]"
| "attached _ = []"

definition newly_attached :: "fm \<Rightarrow> fm \<Rightarrow> ref list" where
  "newly_attached st st' = concat (map attached (drop (length (emitted st)) (emitted st')))"

definition attach_fresh :: "fm \<Rightarrow> fm \<Rightarrow> bool" where
  "attach_fresh st st' =
     (nextRef st \<le> nextRef st'
    \<and> take (length (emitted st)) (emitted st') = emitted st
    \<and> list_all (\<lambda>x. nextRef st \<le> x \<and> x < nextRef st') (newly_attached st st'))"

text \<open>Page \<open>A\<close> after its session has disconnected (\<open>held_page\<close>), and then after
  \<^verbatim>\<open>swapFrameTree\<close> for the new session has run up to its first await (\<open>swapped_page\<close>).
  \<open>new_tree_reply\<close> is the answer of the new session to \<^verbatim>\<open>Page.getFrameTree\<close>, sent by
  \<^verbatim>\<open>initialize\<close>: the new page \<open>T\<close> has a child frame \<open>K\<close>.\<close>

definition held_page :: fm where
  "held_page = the (dispatch 1 Disconnected page_A)"

definition swapped_page :: fm where
  "swapped_page = the (dispatch 1 (Swapped sessionB) held_page)"

definition child_payload :: "string \<Rightarrow> string \<Rightarrow> string \<Rightarrow> frame_payload" where
  "child_payload frameId parentId loaderId =
     \<lparr>fp_id = frameId, fp_parentId = Some parentId, fp_loaderId = loaderId,
      fp_url = ''http://'' @ loaderId\<rparr>"

definition new_tree_reply :: event where
  "new_tree_reply =
     Page_getFrameTree_reply sessionB
       (FrameTreePayload (main_payload ''T'' ''L2'')
          [FrameTreePayload (child_payload ''K'' ''T'' ''L3'') []])"

section \<open>Properties of the decorators\<close>

subsection \<open>moveable\<close>

lemma moveable_methods:
  assumes "body_of k d a = Some b"
  shows "dispose_of k (moveable (source_class d a m)) = Some (wrap_dispose (call_original k b))"
    and "p_move (moveable (source_class d a m)) = Some move_impl"
  using assms
  by (cases k; cases d; cases a;
      simp add: dispose_of_def body_of_def moveable_def source_class_def Let_def)+

lemma wrap_after_move:
  "wrap_dispose orig this (move_impl this w) = w\<lparr>instances := instances w - {this}\<rparr>"
  by (simp add: wrap_dispose_def move_impl_def)

lemma wrap_not_moved:
  "this \<notin> instances w \<Longrightarrow> wrap_dispose orig this w = orig this w"
  by (simp add: wrap_dispose_def)

lemma wrap_other:
  "other \<noteq> this \<Longrightarrow>
   (this \<in> instances (wrap_dispose (call_original k b) other w)) = (this \<in> instances w)"
  by (simp add: wrap_dispose_def call_original_def)

lemma move_other:
  "(this \<in> instances (move_impl other w)) = (this = other \<or> this \<in> instances w)"
  by (simp add: move_impl_def)

text \<open>
  Claim C10. For a class that defines dispose (or asyncDispose) with body \<open>b\<close>, the
  decorated class has a \<open>move\<close> and a dispose \<open>D\<close> such that: \<open>D\<close> right after \<open>move\<close> only
  takes the instance out of the moved set (state and call log of the instance are as
  before \<open>move\<close>, so the original body did not run); a dispose of either kind after that
  suppressed one runs its original body; on an instance that is not in the moved set \<open>D\<close>
  is the original body; and calls on other instances leave the mark of this one alone.
\<close>

theorem moveable_one_shot:
  assumes "body_of k d a = Some b"
  shows "\<exists>D. dispose_of k (moveable (source_class d a m)) = Some D
       \<and> p_move (moveable (source_class d a m)) = Some move_impl
       \<and> (\<forall>this w. D this (move_impl this w) = w\<lparr>instances := instances w - {this}\<rparr>)
       \<and> (\<forall>this w. this \<notin> instances w \<longrightarrow> D this w = call_original k b this w)
       \<and> (\<forall>k' b'. body_of k' d a = Some b' \<longrightarrow>
            (\<exists>D'. dispose_of k' (moveable (source_class d a m)) = Some D'
               \<and> (\<forall>this w. D' this (D this (move_impl this w))
                     = call_original k' b' this (w\<lparr>instances := instances w - {this}\<rparr>))))
       \<and> (\<forall>this other w. other \<noteq> this \<longrightarrow>
             (this \<in> instances (D other w)) = (this \<in> instances w)
           \<and> (this \<in> instances (move_impl other w)) = (this \<in> instances w))"
proof -
  let ?D = "wrap_dispose (call_original k b)"
  have later: "\<exists>D'. dispose_of k' (moveable (source_class d a m)) = Some D'
               \<and> (\<forall>this w. D' this (?D this (move_impl this w))
                     = call_original k' b' this (w\<lparr>instances := instances w - {this}\<rparr>))"
    if "body_of k' d a = Some b'" for k' b'
    using moveable_methods(1)[OF that, of m]
    by (simp add: wrap_after_move wrap_not_moved)
  show ?thesis
    using moveable_methods[OF assms, of m] later
    by (intro exI[of _ ?D])
       (simp add: wrap_after_move wrap_not_moved wrap_other move_other)
qed

theorem moveable_one_shot_witness:
  "\<exists>D. dispose_of SyncDispose (moveable (source_class (Some release) None None)) = Some D
     \<and> invoked (D 7 (move_impl 7 fresh_world)) = []
     \<and> heap (D 7 (move_impl 7 fresh_world)) 7 = False
     \<and> invoked (D 7 (D 7 (move_impl 7 fresh_world))) = [(SyncDispose, 7)]
     \<and> heap (D 7 (D 7 (move_impl 7 fresh_world))) 7 = True
     \<and> invoked (D 7 fresh_world) = [(SyncDispose, 7)]"
proof -
  have b: "body_of SyncDispose (Some release) None = Some release"
    by (simp add: body_of_def)
  from moveable_one_shot[OF b, of None] obtain D where
    D: "dispose_of SyncDispose (moveable (source_class (Some release) None None)) = Some D"
    and moved: "\<forall>this w. D this (move_impl this w) = w\<lparr>instances := instances w - {this}\<rparr>"
    and plain: "\<forall>this w. this \<notin> instances w \<longrightarrow> D this w = call_original SyncDispose release this w"
    by blast
  have "D 7 (move_impl 7 fresh_world) = fresh_world"
    using moved by (simp add: fresh_world_def)
  moreover have "D 7 fresh_world = call_original SyncDispose release 7 fresh_world"
    using plain by (simp add: fresh_world_def)
  ultimately show ?thesis
    using D by (intro exI[of _ D]) (simp add: call_original_def release_def fresh_world_def)
qed

subsection \<open>invokeAtMostOnceForArguments\<close>

lemma walk_seen:
  "list_all is_Obj args \<Longrightarrow> snd (walk c args) = (if has_path c args then Seen else Fresh)"
proof (induction args arbitrary: c)
  case Nil then show ?case by simp
next
  case (Cons v args)
  obtain m where c: "c = WM m" by (cases c)
  from Cons.prems obtain k where v: "v = Obj k" and rest: "list_all is_Obj args"
    by (cases v) auto
  show ?case
  proof (cases "map_of m k")
    case None
    obtain c' r where w: "walk (WM []) args = (c', r)" by (cases "walk (WM []) args")
    have "r \<noteq> BadKey" using Cons.IH[OF rest, of "WM []"] w by (simp split: if_splits)
    with None c v w show ?thesis by (simp add: Let_def)
  next
    case (Some sub)
    with c v Cons.IH[OF rest, of sub] show ?thesis by (auto simp: Let_def split: prod.splits)
  qed
qed

lemma has_path_empty: "has_path (WM []) b = (b = [])"
proof (cases b)
  case Nil then show ?thesis by simp
next
  case (Cons v bs) then show ?thesis by (cases v) auto
qed

lemma walk_has_path:
  "list_all is_Obj args \<Longrightarrow> length b = length args \<Longrightarrow>
   has_path (fst (walk c args)) b = (b = args \<or> has_path c b)"
proof (induction args arbitrary: c b)
  case Nil then show ?case by simp
next
  case (Cons v args)
  obtain m where c: "c = WM m" by (cases c)
  from Cons.prems obtain k where v: "v = Obj k" and rest: "list_all is_Obj args"
    by (cases v) auto
  from Cons.prems obtain u bs where b: "b = u # bs" and len: "length bs = length args"
    by (cases b) auto
  show ?case
  proof (cases u)
    case (Prim p)
    with b c v show ?thesis by (simp add: Let_def split: prod.splits option.splits)
  next
    case (Obj j)
    show ?thesis
    proof (cases "map_of m k")
      case None
      have "has_path (fst (walk (WM []) args)) bs = (bs = args)"
        using Cons.IH[OF rest len, of "WM []"] len by (auto simp: has_path_empty)
      with None c v b Obj show ?thesis
        by (auto simp: Let_def update_conv' split: prod.splits)
    next
      case (Some sub)
      with c v b Obj Cons.IH[OF rest len, of sub] show ?thesis
        by (auto simp: Let_def update_conv' split: prod.splits)
    qed
  qed
qed

lemma call_wrong_length:
  "cacheDepth s = int n \<Longrightarrow> length args \<noteq> n \<Longrightarrow>
   invokeAtMostOnceForArguments t args s = (Threw WrongNumberOfArguments, s)"
  by (simp add: invokeAtMostOnceForArguments_def)

lemma call_right_length:
  assumes "cacheDepth s = int (length args)" "list_all is_Obj args"
  shows "invokeAtMostOnceForArguments t args s =
     (if has_path (cache s) args then ReturnedUndefined else Invoked (t args),
      s\<lparr>cache := fst (walk (cache s) args)\<rparr>)"
proof -
  obtain c r where w: "walk (cache s) args = (c, r)" by (cases "walk (cache s) args")
  have "r = (if has_path (cache s) args then Seen else Fresh)"
    using walk_seen[OF assms(2), of "cache s"] w by simp
  with w assms(1) show ?thesis
    by (simp add: invokeAtMostOnceForArguments_def)
qed

lemma calls_invariant:
  assumes "cacheDepth s = int n"
    and "\<forall>b. length b = n \<and> list_all is_Obj b \<longrightarrow> has_path (cache s) b = (b \<in> S)"
    and "\<forall>args \<in> set cs. list_all is_Obj args"
    and "i < length cs"
  shows "calls t cs s ! i =
     (if length (cs ! i) \<noteq> n then Threw WrongNumberOfArguments
      else if cs ! i \<in> S \<union> set (take i cs) then ReturnedUndefined
      else Invoked (t (cs ! i)))"
  using assms
proof (induction cs arbitrary: s S i)
  case Nil then show ?case by simp
next
  case (Cons args rest)
  show ?case
  proof (cases "length args = n")
    case False
    have step: "invokeAtMostOnceForArguments t args s = (Threw WrongNumberOfArguments, s)"
      using call_wrong_length[OF Cons.prems(1) False] .
    show ?thesis
    proof (cases i)
      case 0 with step False show ?thesis by simp
    next
      case (Suc j)
      have "calls t rest s ! j =
        (if length (rest ! j) \<noteq> n then Threw WrongNumberOfArguments
         else if rest ! j \<in> S \<union> set (take j rest) then ReturnedUndefined
         else Invoked (t (rest ! j)))"
        using Cons.IH[of s S j] Cons.prems Suc by simp
      with step Suc False show ?thesis by auto
    qed
  next
    case True
    have objs: "list_all is_Obj args" using Cons.prems(3) by simp
    let ?s' = "s\<lparr>cache := fst (walk (cache s) args)\<rparr>"
    have step: "invokeAtMostOnceForArguments t args s =
       (if has_path (cache s) args then ReturnedUndefined else Invoked (t args), ?s')"
      using call_right_length[OF _ objs, of s t] Cons.prems(1) True by simp
    have here: "has_path (cache s) args = (args \<in> S)"
      using Cons.prems(2) True objs by blast
    show ?thesis
    proof (cases i)
      case 0 with step True here show ?thesis by simp
    next
      case (Suc j)
      have inv': "\<forall>b. length b = n \<and> list_all is_Obj b \<longrightarrow>
                    has_path (cache ?s') b = (b \<in> insert args S)"
        using walk_has_path[OF objs, of _ "cache s"] Cons.prems(2) True by auto
      have "calls t rest ?s' ! j =
        (if length (rest ! j) \<noteq> n then Threw WrongNumberOfArguments
         else if rest ! j \<in> insert args S \<union> set (take j rest) then ReturnedUndefined
         else Invoked (t (rest ! j)))"
        using Cons.IH[of ?s' "insert args S" j] inv' Cons.prems Suc by simp
      with step Suc show ?thesis by auto
    qed
  qed
qed

text \<open>
  Claim C9, as amended. For a decorated method whose first call carries at least one
  argument, and calls whose arguments are all objects: a call with another number of
  arguments than the first call throws and does not invoke the target; a call with a tuple
  that an earlier call carried returns undefined and does not invoke the target; every
  other call (the first with its tuple) invokes the target and returns its result.
\<close>

theorem invokeAtMostOnce_trace:
  assumes "\<forall>args \<in> set cs. list_all is_Obj args"
    and "i < length cs"
    and "cs ! 0 \<noteq> []"
  shows "calls t cs memo_init ! i =
     (if length (cs ! i) \<noteq> length (cs ! 0) then Threw WrongNumberOfArguments
      else if cs ! i \<in> set (take i cs) then ReturnedUndefined
      else Invoked (t (cs ! i)))"
proof -
  from assms(2) obtain c0 rest where cs: "cs = c0 # rest" by (cases cs) auto
  have c0: "c0 \<noteq> []" "list_all is_Obj c0" using assms cs by auto
  let ?s0 = "memo_init\<lparr>cacheDepth := int (length c0)\<rparr>"
  let ?s1 = "?s0\<lparr>cache := fst (walk (WM []) c0)\<rparr>"
  have first: "invokeAtMostOnceForArguments t c0 memo_init = (Invoked (t c0), ?s1)"
  proof -
    have "invokeAtMostOnceForArguments t c0 memo_init = invokeAtMostOnceForArguments t c0 ?s0"
      by (simp add: invokeAtMostOnceForArguments_def memo_init_def)
    also have "\<dots> = (if has_path (cache ?s0) c0 then ReturnedUndefined else Invoked (t c0),
                      ?s0\<lparr>cache := fst (walk (cache ?s0) c0)\<rparr>)"
      by (rule call_right_length) (simp_all add: c0)
    finally show ?thesis using c0 by (simp add: memo_init_def has_path_empty)
  qed
  show ?thesis
  proof (cases i)
    case 0 with cs first show ?thesis by simp
  next
    case (Suc j)
    have inv: "\<forall>b. length b = length c0 \<and> list_all is_Obj b \<longrightarrow>
                 has_path (cache ?s1) b = (b \<in> {c0})"
      using walk_has_path[OF c0(2), of _ "WM []"] c0(1)
      by (auto simp: memo_init_def has_path_empty)
    have "calls t rest ?s1 ! j =
        (if length (rest ! j) \<noteq> length c0 then Threw WrongNumberOfArguments
         else if rest ! j \<in> {c0} \<union> set (take j rest) then ReturnedUndefined
         else Invoked (t (rest ! j)))"
      by (rule calls_invariant[OF _ inv]) (use assms cs Suc in \<open>simp_all add: memo_init_def\<close>)
    with first cs Suc show ?thesis by auto
  qed
qed

theorem invokeAtMostOnce_trace_witness:
  "calls sample_target [[Obj 1, Obj 2], [Obj 1, Obj 2], [Obj 1, Obj 3], [Obj 1]] memo_init ! 2
     = Invoked 2
   \<and> calls sample_target [[Obj 1, Obj 2], [Obj 1, Obj 2], [Obj 1, Obj 3], [Obj 1]] memo_init ! 1
     = ReturnedUndefined
   \<and> calls sample_target [[Obj 1, Obj 2], [Obj 1, Obj 2], [Obj 1, Obj 3], [Obj 1]] memo_init ! 3
     = Threw WrongNumberOfArguments"
  using invokeAtMostOnce_trace[of "[[Obj 1, Obj 2], [Obj 1, Obj 2], [Obj 1, Obj 3], [Obj 1]]" 2 sample_target]
    invokeAtMostOnce_trace[of "[[Obj 1, Obj 2], [Obj 1, Obj 2], [Obj 1, Obj 3], [Obj 1]]" 1 sample_target]
    invokeAtMostOnce_trace[of "[[Obj 1, Obj 2], [Obj 1, Obj 2], [Obj 1, Obj 3], [Obj 1]]" 3 sample_target]
  by (simp add: sample_target_def)

text \<open>
  Claim C9 as stated fails on the empty tuple: the loop body never runs, so
  \<^verbatim>\<open>freshArguments\<close> stays false and the very first call returns undefined without
  invoking the target.
\<close>

theorem invokeAtMostOnce_empty_tuple_counterexample:
  "calls sample_target [[]] memo_init ! 0 \<noteq> Invoked (sample_target [])"
  by (simp add: invokeAtMostOnceForArguments_def memo_init_def)

section \<open>Properties of the frame manager\<close>

subsection \<open>The primitives, field by field\<close>

lemma emit_fields [simp]:
  "client (emit n st) = client st"
  "contextIdToContext (emit n st) = contextIdToContext st"
  "frameTree (emit n st) = frameTree st"
  "frameNavigatedReceived (emit n st) = frameNavigatedReceived st"
  "objs (emit n st) = objs st"
  "nextRef (emit n st) = nextRef st"
  "waitRequests (emit n st) = waitRequests st"
  "microtasks (emit n st) = microtasks st"
  "awaitingSwap (emit n st) = awaitingSwap st"
  "emitted (emit n st) = emitted st @ [n]"
  by (simp_all add: emit_def)

lemma update_frame_fields [simp]:
  "client (update_frame r g st) = client st"
  "contextIdToContext (update_frame r g st) = contextIdToContext st"
  "frameTree (update_frame r g st) = frameTree st"
  "frameNavigatedReceived (update_frame r g st) = frameNavigatedReceived st"
  "objs (update_frame r g st) = (objs st)(r := g (objs st r))"
  "nextRef (update_frame r g st) = nextRef st"
  "waitRequests (update_frame r g st) = waitRequests st"
  "microtasks (update_frame r g st) = microtasks st"
  "awaitingSwap (update_frame r g st) = awaitingSwap st"
  "emitted (update_frame r g st) = emitted st"
  by (simp_all add: update_frame_def)

lemma update_world_fields [simp]:
  "client (update_world w g st) = client st"
  "contextIdToContext (update_world w g st) = contextIdToContext st"
  "frameTree (update_world w g st) = frameTree st"
  "frameNavigatedReceived (update_world w g st) = frameNavigatedReceived st"
  "nextRef (update_world w g st) = nextRef st"
  "waitRequests (update_world w g st) = waitRequests st"
  "microtasks (update_world w g st) = microtasks st"
  "awaitingSwap (update_world w g st) = awaitingSwap st"
  "emitted (update_world w g st) = emitted st"
  by (simp_all add: update_world_def)

lemma update_world_objs:
  "objs (update_world w g st) x =
     (if x = fst w
      then (objs st x)\<lparr>f_worlds := (f_worlds (objs st x))(snd w := g (f_worlds (objs st x) (snd w)))\<rparr>
      else objs st x)"
  by (simp add: update_world_def)

lemma update_world_frame_fields [simp]:
  "f_id (objs (update_world w g st) x) = f_id (objs st x)"
  "f_parentId (objs (update_world w g st) x) = f_parentId (objs st x)"
  "f_client (objs (update_world w g st) x) = f_client (objs st x)"
  "f_url (objs (update_world w g st) x) = f_url (objs st x)"
  "f_loaderId (objs (update_world w g st) x) = f_loaderId (objs st x)"
  "f_detached (objs (update_world w g st) x) = f_detached (objs st x)"
  "f_waits (objs (update_world w g st) x) = f_waits (objs st x)"
  by (simp_all add: update_world_objs)

lemma update_world_context:
  "w_context (f_worlds (objs (update_world w g st) x) k) =
     (if (x, k) = w then w_context (g (f_worlds (objs st x) k))
      else w_context (f_worlds (objs st x) k))"
  by (cases w) (simp add: update_world_objs)

lemma removeFrame_fields [simp]:
  "client (removeFrame r st) = client st"
  "contextIdToContext (removeFrame r st) = contextIdToContext st"
  "frameNavigatedReceived (removeFrame r st) = frameNavigatedReceived st"
  "objs (removeFrame r st) = objs st"
  "nextRef (removeFrame r st) = nextRef st"
  "waitRequests (removeFrame r st) = waitRequests st"
  "microtasks (removeFrame r st) = microtasks st"
  "awaitingSwap (removeFrame r st) = awaitingSwap st"
  "emitted (removeFrame r st) = emitted st"
  "frameTree (removeFrame r st) = tree_removeFrame r (objs st r) (frameTree st)"
  by (simp_all add: removeFrame_def)

lemma addFrame_fields [simp]:
  "client (addFrame r st) = client st"
  "contextIdToContext (addFrame r st) = contextIdToContext st"
  "frameNavigatedReceived (addFrame r st) = frameNavigatedReceived st"
  "objs (addFrame r st) = objs st"
  "nextRef (addFrame r st) = nextRef st"
  "awaitingSwap (addFrame r st) = awaitingSwap st"
  "emitted (addFrame r st) = emitted st"
  "frameTree (addFrame r st) = tree_addFrame r (objs st r) (frameTree st)"
  by (simp_all add: addFrame_def Let_def)

lemma tree_addFrame_fields:
  "t_frames (tree_addFrame r f t) = (t_frames t)(f_id f \<mapsto> r)"
  "t_mainFrame (tree_addFrame r f t) =
     (if \<not> truthy (f_parentId f) \<and> t_mainFrame t = None then Some r else t_mainFrame t)"
  "t_childIds (tree_addFrame r f t) =
     (case f_parentId f of
        Some p \<Rightarrow> (if p \<noteq> [] then (t_childIds t)
                     (p := (if f_id f \<in> set (t_childIds t p) then t_childIds t p
                            else t_childIds t p @ [f_id f]))
                   else t_childIds t)
      | None \<Rightarrow> t_childIds t)"
  by (simp_all add: tree_addFrame_def Let_def split: option.splits)

lemma tree_removeFrame_fields:
  "t_frames (tree_removeFrame r f t) = (t_frames t)(f_id f := None)"
  "t_mainFrame (tree_removeFrame r f t) =
     (if \<not> truthy (f_parentId f) \<and> t_mainFrame t = Some r then None else t_mainFrame t)"
  "t_childIds (tree_removeFrame r f t) =
     (case f_parentId f of
        Some p \<Rightarrow> (if p \<noteq> [] then (t_childIds t)(p := removeAll (f_id f) (t_childIds t p))
                   else t_childIds t)
      | None \<Rightarrow> t_childIds t)"
  by (simp_all add: tree_removeFrame_def Let_def split: option.splits)

lemma frame_of_simps [simp]:
  "frame_of (emit n st) = frame_of st"
  "frame_of (update_frame r g st) = frame_of st"
  "frame_of (update_world w h st) = frame_of st"
  "frame_of (removeFrame r st) = (frame_of st)(f_id (objs st r) := None)"
  "frame_of (addFrame r st) = (frame_of st)(f_id (objs st r) \<mapsto> r)"
  by (auto simp: frame_of_def getById_def tree_addFrame_fields tree_removeFrame_fields)

lemma mainFrame_simps [simp]:
  "mainFrame (emit n st) = mainFrame st"
  "mainFrame (update_frame r g st) = mainFrame st"
  "mainFrame (update_world w h st) = mainFrame st"
  "mainFrame (removeFrame r st) =
     (if \<not> truthy (f_parentId (objs st r)) \<and> mainFrame st = Some r then None else mainFrame st)"
  "mainFrame (addFrame r st) =
     (if \<not> truthy (f_parentId (objs st r)) \<and> mainFrame st = None then Some r else mainFrame st)"
  by (simp_all add: mainFrame_def getMainFrame_def tree_addFrame_fields tree_removeFrame_fields)

lemma frame_of_record_updates [simp]:
  "frame_of (st\<lparr>client := c\<rparr>) = frame_of st"
  "frame_of (st\<lparr>frameNavigatedReceived := nr\<rparr>) = frame_of st"
  "frame_of (st\<lparr>awaitingSwap := aw\<rparr>) = frame_of st"
  "frame_of (st\<lparr>contextIdToContext := reg\<rparr>) = frame_of st"
  "frame_of (st\<lparr>objs := ob\<rparr>) = frame_of st"
  "frame_of (st\<lparr>emitted := em\<rparr>) = frame_of st"
  "frame_of (st\<lparr>microtasks := mt\<rparr>) = frame_of st"
  "frame_of (st\<lparr>waitRequests := wr\<rparr>) = frame_of st"
  "frame_of (st\<lparr>nextRef := nx\<rparr>) = frame_of st"
  "mainFrame (st\<lparr>nextRef := nx\<rparr>) = mainFrame st"
  "mainFrame (st\<lparr>client := c\<rparr>) = mainFrame st"
  "mainFrame (st\<lparr>frameNavigatedReceived := nr\<rparr>) = mainFrame st"
  "mainFrame (st\<lparr>awaitingSwap := aw\<rparr>) = mainFrame st"
  "mainFrame (st\<lparr>contextIdToContext := reg\<rparr>) = mainFrame st"
  "mainFrame (st\<lparr>objs := ob\<rparr>) = mainFrame st"
  "mainFrame (st\<lparr>emitted := em\<rparr>) = mainFrame st"
  "mainFrame (st\<lparr>microtasks := mt\<rparr>) = mainFrame st"
  "mainFrame (st\<lparr>waitRequests := wr\<rparr>) = mainFrame st"
  by (auto simp: frame_of_def mainFrame_def)

lemmas prim_defs = emit_def update_frame_def update_world_def addFrame_def removeFrame_def
  allocate_def frame_of_def mainFrame_def getById_def getMainFrame_def
  tree_addFrame_def tree_removeFrame_def

lemma page_A_eval:
  "frame_of page_A ''A'' = Some 0" "mainFrame page_A = Some 0"
  "f_loaderId (objs page_A 0) = ''L1''" "f_client (objs page_A 0) = sessionA"
  "client page_A = sessionA" "microtasks page_A = []"
  "w_context (f_worlds (objs page_A 0) PUPPETEER_WORLD) = None"
  "contextIdToContext page_A = []"
  by (simp_all add: page_A_def onFrameNavigated_def new_FrameManager_def empty_tree_def
      prim_defs waitForFrame_def runMicrotasks_def onFrameNavigated_resume_def
      main_payload_def new_CdpFrame_def navigated_def Let_def)

subsection \<open>Lifecycle events\<close>

text \<open>
  Claim C7, as amended. A lifecycle event whose loader id is not the frame's current loader
  id leaves the frame (its lifecycle flags, URL and loader id), the tree and the registry
  as they are, but the frame manager still emits its two \<open>LifecycleEvent\<close> notifications,
  one on the manager and one on the frame.
\<close>

theorem stale_lifecycle_event_still_notifies:
  assumes "frame_of st (lp_frameId ev) = Some r"
    and "lp_loaderId ev \<noteq> f_loaderId (objs st r)"
  shows "onLifecycleEvent ev st
         = st\<lparr>emitted := emitted st @ [FM_LifecycleEvent r, F_LifecycleEvent r]\<rparr>"
  using assms
  by (simp add: onLifecycleEvent_def frame_onLifecycleEvent_def emit_def update_frame_def)

theorem stale_lifecycle_event_still_notifies_witness:
  "onLifecycleEvent \<lparr>lp_frameId = ''A'', lp_loaderId = ''L0'', lp_name = ''load''\<rparr> page_A
     = page_A\<lparr>emitted := emitted page_A @ [FM_LifecycleEvent 0, F_LifecycleEvent 0]\<rparr>"
  using stale_lifecycle_event_still_notifies
          [of page_A "\<lparr>lp_frameId = ''A'', lp_loaderId = ''L0'', lp_name = ''load''\<rparr>" 0]
  by (simp add: page_A_eval)

text \<open>
  Claim C7 as stated fails: \<^verbatim>\<open>#onLifecycleEvent\<close> does not compare loader ids and emits
  after every event for a known frame. Here the main frame has loader \<open>L1\<close> and the event
  names \<open>L0\<close>.
\<close>

theorem stale_lifecycle_event_counterexample:
  "f_loaderId (objs page_A 0) \<noteq> ''L0''
   \<and> emitted (onLifecycleEvent \<lparr>lp_frameId = ''A'', lp_loaderId = ''L0'', lp_name = ''load''\<rparr> page_A)
       \<noteq> emitted page_A"
  by (simp add: page_A_eval onLifecycleEvent_def emit_def update_frame_def)

subsection \<open>Execution contexts of the utility world\<close>

lemma utility_context_bound:
  assumes "frame_of st frameId = Some r"
    and "f_client (objs st r) = session"
    and "cp_auxFrameId p = Some frameId" "\<not> cp_isDefault p" "cp_name p = UTILITY_WORLD_NAME"
    and "w_context (f_worlds (objs st r) PUPPETEER_WORLD) = None"
  shows "onExecutionContextCreated p session st =
     st\<lparr>objs := (objs st)(r := (objs st r)\<lparr>f_worlds := (f_worlds (objs st r))
             (PUPPETEER_WORLD := setContext
                \<lparr>ec_client = session, ec_payload = p, ec_world = (r, PUPPETEER_WORLD)\<rparr>
                (f_worlds (objs st r) PUPPETEER_WORLD))\<rparr>),
        contextIdToContext := AList.update (context_key session (cp_id p))
            \<lparr>ec_client = session, ec_payload = p, ec_world = (r, PUPPETEER_WORLD)\<rparr>
            (contextIdToContext st)\<rparr>"
  using assms
  by (simp add: onExecutionContextCreated_def pick_world_def hasContext_def setContext_def
      update_world_def update_frame_def Let_def)

lemma utility_context_ignored:
  assumes "frame_of st frameId = Some r"
    and "cp_auxFrameId p = Some frameId" "\<not> cp_isDefault p"
    and "w_context (f_worlds (objs st r) PUPPETEER_WORLD) \<noteq> None"
  shows "onExecutionContextCreated p session st = st"
  using assms
  by (simp add: onExecutionContextCreated_def pick_world_def hasContext_def)

text \<open>
  Claim C8, as amended. Take a frame of the tree and two context-created events on that
  frame's session, both for this frame, both with the reserved utility-world name and
  neither marked as the frame's default context. The second event changes nothing: no
  ExecutionContext is constructed or registered for it. When the frame's utility World
  held no context before the two events, after both it holds the first event's
  ExecutionContext, the registry answers that context under (session, first context id)
  and, under (session, any other context id), what it answered before the two events.
  When the utility World already held a context, the two events together change
  nothing at all.
\<close>

theorem second_utility_context_not_registered:
  assumes "frame_of st frameId = Some r"
    and "f_client (objs st r) = session"
    and "cp_auxFrameId p1 = Some frameId" "\<not> cp_isDefault p1" "cp_name p1 = UTILITY_WORLD_NAME"
    and "cp_auxFrameId p2 = Some frameId" "\<not> cp_isDefault p2" "cp_name p2 = UTILITY_WORLD_NAME"
  shows "onExecutionContextCreated p2 session (onExecutionContextCreated p1 session st)
           = onExecutionContextCreated p1 session st
       \<and> (w_context (f_worlds (objs st r) PUPPETEER_WORLD) = None \<longrightarrow>
            w_context (f_worlds
                (objs (onExecutionContextCreated p2 session
                         (onExecutionContextCreated p1 session st)) r) PUPPETEER_WORLD)
              = Some \<lparr>ec_client = session, ec_payload = p1, ec_world = (r, PUPPETEER_WORLD)\<rparr>
          \<and> (\<forall>contextId.
                getExecutionContextById
                  (onExecutionContextCreated p2 session
                     (onExecutionContextCreated p1 session st)) contextId session
                  = (if contextId = cp_id p1
                     then Some \<lparr>ec_client = session, ec_payload = p1,
                                ec_world = (r, PUPPETEER_WORLD)\<rparr>
                     else getExecutionContextById st contextId session)))
       \<and> (w_context (f_worlds (objs st r) PUPPETEER_WORLD) \<noteq> None \<longrightarrow>
            onExecutionContextCreated p2 session (onExecutionContextCreated p1 session st) = st)"
proof (cases "w_context (f_worlds (objs st r) PUPPETEER_WORLD) = None")
  case True
  let ?c = "\<lparr>ec_client = session, ec_payload = p1, ec_world = (r, PUPPETEER_WORLD)\<rparr>"
  note first = utility_context_bound[OF assms(1-5) True]
  have held: "w_context (f_worlds (objs (onExecutionContextCreated p1 session st) r) PUPPETEER_WORLD)
                = Some ?c"
    by (simp add: first setContext_def)
  have found: "frame_of (onExecutionContextCreated p1 session st) frameId = Some r"
    using assms(1) by (simp add: first frame_of_def)
  have second: "onExecutionContextCreated p2 session (onExecutionContextCreated p1 session st)
           = onExecutionContextCreated p1 session st"
    by (rule utility_context_ignored[OF found assms(6,7)]) (simp add: held)
  have reg: "getExecutionContextById (onExecutionContextCreated p1 session st) contextId session
       = (if contextId = cp_id p1 then Some ?c else getExecutionContextById st contextId session)"
    for contextId
    by (simp add: first getExecutionContextById_def update_conv' context_key_def)
  show ?thesis using True held reg by (simp only: second) simp
next
  case False
  have "onExecutionContextCreated p1 session st = st"
    by (rule utility_context_ignored[OF assms(1,3,4) False])
  moreover have "onExecutionContextCreated p2 session st = st"
    by (rule utility_context_ignored[OF assms(1,6,7) False])
  ultimately show ?thesis using False by simp
qed

theorem second_utility_context_not_registered_witness:
  "onExecutionContextCreated (utility_payload 2 ''A'') sessionA
     (onExecutionContextCreated (utility_payload 1 ''A'') sessionA page_A)
     = onExecutionContextCreated (utility_payload 1 ''A'') sessionA page_A
   \<and> w_context (f_worlds (objs (onExecutionContextCreated (utility_payload 2 ''A'') sessionA
         (onExecutionContextCreated (utility_payload 1 ''A'') sessionA page_A)) 0)
        PUPPETEER_WORLD)
     = Some \<lparr>ec_client = sessionA, ec_payload = utility_payload 1 ''A'',
             ec_world = (0, PUPPETEER_WORLD)\<rparr>
   \<and> getExecutionContextById (onExecutionContextCreated (utility_payload 2 ''A'') sessionA
         (onExecutionContextCreated (utility_payload 1 ''A'') sessionA page_A)) 1 sessionA
     = Some \<lparr>ec_client = sessionA, ec_payload = utility_payload 1 ''A'',
             ec_world = (0, PUPPETEER_WORLD)\<rparr>
   \<and> getExecutionContextById (onExecutionContextCreated (utility_payload 2 ''A'') sessionA
         (onExecutionContextCreated (utility_payload 1 ''A'') sessionA page_A)) 2 sessionA
     = None"
proof -
  have empty: "getExecutionContextById page_A contextId sessionA = None" for contextId
    by (simp add: getExecutionContextById_def page_A_eval)
  have "frame_of page_A ''A'' = Some 0" "f_client (objs page_A 0) = sessionA"
    "cp_auxFrameId (utility_payload 1 ''A'') = Some ''A''"
    "\<not> cp_isDefault (utility_payload 1 ''A'')"
    "cp_name (utility_payload 1 ''A'') = UTILITY_WORLD_NAME"
    "cp_auxFrameId (utility_payload 2 ''A'') = Some ''A''"
    "\<not> cp_isDefault (utility_payload 2 ''A'')"
    "cp_name (utility_payload 2 ''A'') = UTILITY_WORLD_NAME"
    "cp_id (utility_payload 1 ''A'') = 1"
    by (simp_all add: page_A_eval utility_payload_def)
  note hyps = this
  let ?st2 = "onExecutionContextCreated (utility_payload 2 ''A'') sessionA
     (onExecutionContextCreated (utility_payload 1 ''A'') sessionA page_A)"
  let ?c = "\<lparr>ec_client = sessionA, ec_payload = utility_payload 1 ''A'',
             ec_world = (0, PUPPETEER_WORLD)\<rparr>"
  from second_utility_context_not_registered[OF hyps(1-8)] page_A_eval(7)
  have eq: "?st2 = onExecutionContextCreated (utility_payload 1 ''A'') sessionA page_A"
    and w: "w_context (f_worlds (objs ?st2 0) PUPPETEER_WORLD) = Some ?c"
    and reg: "\<forall>contextId. getExecutionContextById ?st2 contextId sessionA
                = (if contextId = cp_id (utility_payload 1 ''A'') then Some ?c
                   else getExecutionContextById page_A contextId sessionA)"
    by blast+
  have r1: "getExecutionContextById ?st2 1 sessionA = Some ?c"
    unfolding reg[rule_format] by (simp add: hyps(9))
  have r2: "getExecutionContextById ?st2 2 sessionA = None"
    unfolding reg[rule_format] by (simp add: hyps(9) empty)
  show ?thesis by (intro conjI) (rule eq, rule w, rule r1, rule r2)
qed

text \<open>
  Claim C8 as stated fails: the second context (id 2) is not reachable by registry lookup,
  since \<^verbatim>\<open>#onExecutionContextCreated\<close> returns before constructing it when no world
  was picked.
\<close>

theorem second_utility_context_counterexample:
  "getExecutionContextById
     (onExecutionContextCreated (utility_payload 2 ''A'') sessionA
       (onExecutionContextCreated (utility_payload 1 ''A'') sessionA page_A))
     2 sessionA = None"
proof -
  let ?p1 = "utility_payload 1 ''A''" and ?p2 = "utility_payload 2 ''A''"
  let ?st1 = "onExecutionContextCreated ?p1 sessionA page_A"
  have first: "?st1 = page_A\<lparr>objs := (objs page_A)(0 := (objs page_A 0)\<lparr>f_worlds := (f_worlds (objs page_A 0))
             (PUPPETEER_WORLD := setContext
                \<lparr>ec_client = sessionA, ec_payload = ?p1, ec_world = (0, PUPPETEER_WORLD)\<rparr>
                (f_worlds (objs page_A 0) PUPPETEER_WORLD))\<rparr>),
        contextIdToContext := AList.update (context_key sessionA (cp_id ?p1))
            \<lparr>ec_client = sessionA, ec_payload = ?p1, ec_world = (0, PUPPETEER_WORLD)\<rparr>
            (contextIdToContext page_A)\<rparr>"
    by (rule utility_context_bound[where frameId = "''A''"])
       (simp_all add: page_A_eval utility_payload_def)
  have found: "frame_of ?st1 ''A'' = Some 0"
    using page_A_eval(1) by (simp add: first frame_of_def)
  have held: "w_context (f_worlds (objs ?st1 0) PUPPETEER_WORLD) \<noteq> None"
    by (simp add: first setContext_def)
  have second: "onExecutionContextCreated ?p2 sessionA ?st1 = ?st1"
    by (rule utility_context_ignored[OF found _ _ held])
       (simp_all add: utility_payload_def)
  have "getExecutionContextById ?st1 2 sessionA = None"
    unfolding first
    by (simp add: getExecutionContextById_def context_key_def utility_payload_def
        page_A_eval sessionA_def)
  then show ?thesis by (simp only: second)
qed

subsection \<open>Duplicate attach\<close>

lemma attach_files_frame:
  "\<exists>r. frame_of (onFrameAttached s frameId p st) frameId = Some r"
  by (cases "frame_of st frameId")
     (auto simp: onFrameAttached_def prim_defs new_CdpFrame_def updateClient_def Let_def)

lemma attach_existing:
  "frame_of st frameId = Some r \<Longrightarrow>
   onFrameAttached s frameId p st =
     (if f_client (objs st r) \<noteq> client st
      then st\<lparr>objs := (objs st)(r := (objs st r)\<lparr>f_client := s\<rparr>)\<rparr>
      else st)"
  by (simp add: onFrameAttached_def isOOPFrame_def update_frame_def updateClient_def)

text \<open>
  Claim C4, as amended. After an attach event for a frame id, a second attach event for
  the same id finds the Frame and returns without constructing a Frame, without inserting
  into the tree and without a \<open>FrameAttached\<close> notification; it rebinds the Frame's session
  to the event's session when the Frame is out-of-process (its session is not the frame
  manager's own), and otherwise changes nothing at all.
\<close>

theorem duplicate_attach_rebinds_only_oop:
  "\<exists>r. frame_of (onFrameAttached s1 frameId p1 st) frameId = Some r
     \<and> onFrameAttached s2 frameId p2 (onFrameAttached s1 frameId p1 st) =
         (if f_client (objs (onFrameAttached s1 frameId p1 st) r)
               \<noteq> client (onFrameAttached s1 frameId p1 st)
          then (onFrameAttached s1 frameId p1 st)
                 \<lparr>objs := (objs (onFrameAttached s1 frameId p1 st))
                    (r := (objs (onFrameAttached s1 frameId p1 st) r)\<lparr>f_client := s2\<rparr>)\<rparr>
          else onFrameAttached s1 frameId p1 st)"
proof -
  obtain r where r: "frame_of (onFrameAttached s1 frameId p1 st) frameId = Some r"
    using attach_files_frame by blast
  show ?thesis using r attach_existing[OF r] by blast
qed

lemma page_A_more:
  "nextRef page_A = 1" "frame_of page_A ''B'' = None" "emitted page_A = [FM_FrameNavigated 0, F_FrameNavigated 0 Navigation]"
  "waitRequests page_A = []"
  by (simp_all add: page_A_def onFrameNavigated_def new_FrameManager_def empty_tree_def
      prim_defs waitForFrame_def runMicrotasks_def onFrameNavigated_resume_def
      main_payload_def new_CdpFrame_def navigated_def Let_def)

lemma attached_B_eval:
  "frame_of attached_B ''B'' = Some 1" "f_client (objs attached_B 1) = sessionA"
  "client attached_B = sessionA" "nextRef attached_B = 2"
  "emitted attached_B = [FM_FrameNavigated 0, F_FrameNavigated 0 Navigation, FM_FrameAttached 1]"
  using page_A_eval page_A_more
  by (simp_all add: attached_B_def onFrameAttached_def prim_defs new_CdpFrame_def Let_def)

theorem duplicate_attach_rebinds_only_oop_witness:
  "frame_of (onFrameAttached sessionA ''B'' ''A'' page_A) ''B'' = Some 1
   \<and> onFrameAttached sessionB ''B'' ''A'' (onFrameAttached sessionA ''B'' ''A'' page_A)
      = onFrameAttached sessionA ''B'' ''A'' page_A"
  using duplicate_attach_rebinds_only_oop[of sessionA "''B''" "''A''" page_A sessionB "''A''"]
    attached_B_eval
  by (auto simp: attached_B_def)

text \<open>
  Claim C4 as stated fails: frame \<open>B\<close> was attached on the frame manager's own session, so
  the duplicate attach from another session does not rebind it.
\<close>

theorem duplicate_attach_counterexample:
  "f_client (objs (onFrameAttached sessionB ''B'' ''A'' (onFrameAttached sessionA ''B'' ''A'' page_A)) 1)
     \<noteq> sessionB"
proof -
  have "onFrameAttached sessionB ''B'' ''A'' attached_B = attached_B"
    using attach_existing[OF attached_B_eval(1), of sessionB "''A''"] attached_B_eval by simp
  then show ?thesis
    using attached_B_eval by (simp add: attached_B_def sessionA_def sessionB_def)
qed

subsection \<open>Recursive removal\<close>

lemma dispose_fields [simp]:
  "f_id (dispose f) = f_id f" "f_parentId (dispose f) = f_parentId f"
  "f_client (dispose f) = f_client f" "f_worlds (dispose f) = f_worlds f"
  "f_url (dispose f) = f_url f" "f_loaderId (dispose f) = f_loaderId f"
  "f_detached (dispose f)" "f_waits (dispose f) = map fail_pending (f_waits f)"
  by (simp_all add: dispose_def)

lemma fail_pending_idem [simp]: "fail_pending (fail_pending w) = fail_pending w"
  by (cases w) (simp_all add: fail_pending_def)

lemma dispose_idem [simp]: "dispose (dispose f) = dispose f"
  by (simp add: dispose_def comp_def)

lemma map_filter_removed_key:
  assumes "f k = Some x" and "\<forall>j. f j = Some x \<longrightarrow> j = k"
  shows "List.map_filter (f(k := None)) js = filter (\<lambda>c. c \<noteq> x) (List.map_filter f js)"
proof (induction js)
  case Nil show ?case by (simp add: List.map_filter_simps)
next
  case (Cons j js)
  show ?case
  proof (cases "j = k")
    case True
    then show ?thesis using assms(1) Cons by (simp add: List.map_filter_simps)
  next
    case False
    show ?thesis
    proof (cases "f j")
      case None
      then show ?thesis using False Cons by (simp add: List.map_filter_simps)
    next
      case (Some y)
      have "y \<noteq> x" using assms(2) Some False by blast
      then show ?thesis using False Cons Some by (simp add: List.map_filter_simps)
    qed
  qed
qed

lemma map_filter_removeAll_key:
  "List.map_filter (f(k := None)) (removeAll k js) = List.map_filter (f(k := None)) js"
proof (induction js)
  case Nil show ?case by (simp add: List.map_filter_simps)
next
  case (Cons j js)
  show ?case
  proof (cases "j = k")
    case True with Cons show ?thesis by (simp add: List.map_filter_simps)
  next
    case False
    with Cons show ?thesis by (cases "f j") (simp_all add: List.map_filter_simps)
  qed
qed

lemma childFrames_after_remove:
  assumes "keyed st" and "frame_of st (f_id (objs st x)) = Some x"
  shows "childFrames (removeFrame x (update_frame x dispose st)) y
         = filter (\<lambda>c. c \<noteq> x) (childFrames st y)"
proof -
  let ?k = "f_id (objs st x)"
  let ?f = "t_frames (frameTree st)"
  have fk: "?f ?k = Some x" using assms(2) by (simp add: frame_of_def getById_def)
  have uniq: "\<forall>j. ?f j = Some x \<longrightarrow> j = ?k"
    using assms(1) by (auto simp: keyed_def frame_of_def getById_def)
  have id_y: "f_id (objs (removeFrame x (update_frame x dispose st)) y) = f_id (objs st y)"
    by simp
  have "List.map_filter (?f(?k := None))
          (t_childIds (tree_removeFrame x (dispose (objs st x)) (frameTree st)) i)
        = List.map_filter (?f(?k := None)) (t_childIds (frameTree st) i)" for i
    by (auto simp: tree_removeFrame_fields map_filter_removeAll_key split: option.splits)
  then show ?thesis
    unfolding childFrames_def id_y
    by (simp add: tree_childFrames_def tree_removeFrame_fields
        map_filter_removed_key[OF fk uniq])
qed

lemma removedI:
  assumes "emitted st' = emitted st @ detach_notes xs"
    and "\<And>i. frame_of st' i =
             (if i \<in> (\<lambda>x. f_id (objs st x)) ` set xs then None else frame_of st i)"
    and "\<And>y. objs st' y = (if y \<in> set xs then dispose (objs st y) else objs st y)"
    and "\<And>y. childFrames st' y = filter (\<lambda>c. c \<notin> set xs) (childFrames st y)"
    and "\<And>m. mainFrame st = Some m \<Longrightarrow> m \<notin> set xs \<Longrightarrow> mainFrame st' = Some m"
    and "awaitingSwap st' = awaitingSwap st" "client st' = client st"
    and "nextRef st' = nextRef st" "contextIdToContext st' = contextIdToContext st"
    and "microtasks st' = microtasks st" "waitRequests st' = waitRequests st"
    and "frameNavigatedReceived st' = frameNavigatedReceived st"
  shows "removed st xs st'"
  unfolding removed_def
  apply (intro conjI allI impI)
  apply (rule assms(1))
  apply (rule assms(2))
  apply (rule assms(3))
  apply (rule assms(4))
  apply (erule conjE)
  apply (erule (1) assms(5))
  apply (rule assms)+
  done

lemma remove_one:
  assumes "keyed st" and "frame_of st (f_id (objs st x)) = Some x"
  shows "removed st [x]
           (emit (F_FrameDetached x) (emit (FM_FrameDetached x)
              (removeFrame x (update_frame x dispose st))))"
proof (rule removedI)
  let ?st' = "emit (F_FrameDetached x) (emit (FM_FrameDetached x)
              (removeFrame x (update_frame x dispose st)))"
  show "emitted ?st' = emitted st @ detach_notes [x]" by (simp add: detach_notes_def)
  show "frame_of ?st' i =
      (if i \<in> (\<lambda>x. f_id (objs st x)) ` set [x] then None else frame_of st i)" for i
    by simp
  show "objs ?st' y = (if y \<in> set [x] then dispose (objs st y) else objs st y)" for y
    by simp
  show "childFrames ?st' y = filter (\<lambda>c. c \<notin> set [x]) (childFrames st y)" for y
    using childFrames_after_remove[OF assms, of y] by (simp add: childFrames_def)
  show "mainFrame ?st' = Some m" if "mainFrame st = Some m" "m \<notin> set [x]" for m
    using that by simp
qed simp_all

lemma detach_notes_append [simp]:
  "detach_notes (xs @ ys) = detach_notes xs @ detach_notes ys"
  by (simp add: detach_notes_def)

lemma removed_nil: "removed st [] st"
  by (rule removedI) (simp_all add: detach_notes_def)

lemma removedD:
  assumes "removed st xs st'"
  shows "emitted st' = emitted st @ detach_notes xs"
    and "\<forall>i. frame_of st' i =
             (if i \<in> (\<lambda>x. f_id (objs st x)) ` set xs then None else frame_of st i)"
    and "\<forall>y. objs st' y = (if y \<in> set xs then dispose (objs st y) else objs st y)"
    and "\<forall>y. childFrames st' y = filter (\<lambda>c. c \<notin> set xs) (childFrames st y)"
    and "\<forall>m. mainFrame st = Some m \<and> m \<notin> set xs \<longrightarrow> mainFrame st' = Some m"
    and "awaitingSwap st' = awaitingSwap st"
    and "client st' = client st"
    and "nextRef st' = nextRef st"
    and "contextIdToContext st' = contextIdToContext st"
    and "microtasks st' = microtasks st"
    and "waitRequests st' = waitRequests st"
    and "frameNavigatedReceived st' = frameNavigatedReceived st"
proof -
  note c = assms[unfolded removed_def]
  show "emitted st' = emitted st @ detach_notes xs"
    using c by (elim conjE) assumption
  show "\<forall>i. frame_of st' i =
             (if i \<in> (\<lambda>x. f_id (objs st x)) ` set xs then None else frame_of st i)"
    using c by (elim conjE) assumption
  show "\<forall>y. objs st' y = (if y \<in> set xs then dispose (objs st y) else objs st y)"
    using c by (elim conjE) assumption
  show "\<forall>y. childFrames st' y = filter (\<lambda>c. c \<notin> set xs) (childFrames st y)"
    using c by (elim conjE) assumption
  show "\<forall>m. mainFrame st = Some m \<and> m \<notin> set xs \<longrightarrow> mainFrame st' = Some m"
    using c by (elim conjE) assumption
  show "awaitingSwap st' = awaitingSwap st"
    using c by (elim conjE) assumption
  show "client st' = client st"
    using c by (elim conjE) assumption
  show "nextRef st' = nextRef st"
    using c by (elim conjE) assumption
  show "contextIdToContext st' = contextIdToContext st"
    using c by (elim conjE) assumption
  show "microtasks st' = microtasks st"
    using c by (elim conjE) assumption
  show "waitRequests st' = waitRequests st"
    using c by (elim conjE) assumption
  show "frameNavigatedReceived st' = frameNavigatedReceived st"
    using c by (elim conjE) assumption
qed

lemma removed_frame_of:
  "removed st xs st' \<Longrightarrow> frame_of st' i =
     (if i \<in> (\<lambda>x. f_id (objs st x)) ` set xs then None else frame_of st i)"
  using removedD(2) by (rule spec)

lemma removed_objs:
  "removed st xs st' \<Longrightarrow> objs st' y = (if y \<in> set xs then dispose (objs st y) else objs st y)"
  using removedD(3) by (rule spec)

lemma removed_childFrames:
  "removed st xs st' \<Longrightarrow> childFrames st' y = filter (\<lambda>c. c \<notin> set xs) (childFrames st y)"
  using removedD(4) by (rule spec)

lemma removed_mainFrame:
  assumes "removed st xs st'" "mainFrame st = Some m" "m \<notin> set xs"
  shows "mainFrame st' = Some m"
proof -
  have "mainFrame st = Some m \<and> m \<notin> set xs \<longrightarrow> mainFrame st' = Some m"
    using removedD(5)[OF assms(1)] by (rule spec)
  then show ?thesis using assms(2,3) by (elim impE) (rule conjI)
qed

lemma removed_ids:
  "removed st xs st' \<Longrightarrow> f_id (objs st' y) = f_id (objs st y)"
  by (simp add: removed_objs)

lemma removed_trans:
  assumes a: "removed st xs st1" and b: "removed st1 ys st2"
  shows "removed st (xs @ ys) st2"
proof (rule removedI)
  have ids: "f_id (objs st1 y) = f_id (objs st y)" for y
    using removed_ids[OF a] .
  show "emitted st2 = emitted st @ detach_notes (xs @ ys)"
    by (simp add: removedD(1)[OF a] removedD(1)[OF b])
  show "frame_of st2 i =
      (if i \<in> (\<lambda>x. f_id (objs st x)) ` set (xs @ ys) then None else frame_of st i)" for i
    unfolding removed_frame_of[OF b] removed_frame_of[OF a] ids by (simp add: image_Un)
  show "objs st2 y = (if y \<in> set (xs @ ys) then dispose (objs st y) else objs st y)" for y
    unfolding removed_objs[OF b] removed_objs[OF a] by simp
  show "childFrames st2 y = filter (\<lambda>c. c \<notin> set (xs @ ys)) (childFrames st y)" for y
    unfolding removed_childFrames[OF b] removed_childFrames[OF a] by (simp add: conj_commute)
  show "mainFrame st2 = Some m" if "mainFrame st = Some m" "m \<notin> set (xs @ ys)" for m
  proof -
    have "mainFrame st1 = Some m" using removed_mainFrame[OF a that(1)] that(2) by simp
    then show ?thesis using removed_mainFrame[OF b] that(2) by simp
  qed
  show "awaitingSwap st2 = awaitingSwap st" by (simp add: removedD(6)[OF a] removedD(6)[OF b])
  show "client st2 = client st" by (simp add: removedD(7)[OF a] removedD(7)[OF b])
  show "nextRef st2 = nextRef st" by (simp add: removedD(8)[OF a] removedD(8)[OF b])
  show "contextIdToContext st2 = contextIdToContext st"
    by (simp add: removedD(9)[OF a] removedD(9)[OF b])
  show "microtasks st2 = microtasks st" by (simp add: removedD(10)[OF a] removedD(10)[OF b])
  show "waitRequests st2 = waitRequests st" by (simp add: removedD(11)[OF a] removedD(11)[OF b])
  show "frameNavigatedReceived st2 = frameNavigatedReceived st"
    by (simp add: removedD(12)[OF a] removedD(12)[OF b])
qed

lemma removed_keyed:
  assumes "keyed st" and r: "removed st xs st'"
  shows "keyed st'"
  unfolding keyed_def
proof (intro allI impI)
  fix i x assume "frame_of st' i = Some x"
  then have "frame_of st i = Some x"
    unfolding removed_frame_of[OF r] by (simp split: if_splits)
  then have "f_id (objs st x) = i" using assms(1) by (simp add: keyed_def)
  then show "f_id (objs st' x) = i" using removed_ids[OF r] by simp
qed

lemma childFrames_filed:
  assumes "keyed st" and "c \<in> set (childFrames st r)"
  shows "frame_of st (f_id (objs st c)) = Some c"
proof -
  from assms(2) obtain i where "t_frames (frameTree st) i = Some c"
    by (auto simp: childFrames_def tree_childFrames_def List.map_filter_def)
  then have i: "frame_of st i = Some c" by (simp add: frame_of_def getById_def)
  then have "f_id (objs st c) = i" using assms(1) by (simp add: keyed_def)
  then show ?thesis using i by simp
qed

lemma root_in_postorder [simp]: "root t \<in> set (postorder t)"
  by (cases t) simp

lemma postorder_nonempty [simp]: "postorder t \<noteq> []"
  by (cases t) simp

lemma shape_children_inside:
  "shape st t \<Longrightarrow> y \<in> set (postorder t) \<Longrightarrow> set (childFrames st y) \<subseteq> set (postorder t)"
proof (induction t)
  case (Node r ts)
  show ?case
  proof (cases "y = r")
    case True
    have "set (map root ts) \<subseteq> (\<Union>t\<in>set ts. set (postorder t))" by auto
    then show ?thesis using Node.prems True by auto
  next
    case False
    then obtain t where t: "t \<in> set ts" "y \<in> set (postorder t)"
      using Node.prems by auto
    then have "shape st t" using Node.prems by (simp add: list_all_iff)
    from Node.IH[OF t(1) this t(2)] t(1) show ?thesis by auto
  qed
qed

lemma shape_cong_nodes:
  "(\<And>y. y \<in> set (postorder t) \<Longrightarrow> childFrames st' y = childFrames st y) \<Longrightarrow>
   shape st t \<Longrightarrow> shape st' t"
proof (induction t)
  case (Node r ts)
  have "childFrames st' r = map root ts" using Node.prems by simp
  moreover have "shape st' t" if "t \<in> set ts" for t
  proof (rule Node.IH[OF that])
    show "shape st t" using Node.prems(2) that by (simp add: list_all_iff)
    show "childFrames st' y = childFrames st y" if "y \<in> set (postorder t)" for y
      using Node.prems(1)[of y] that \<open>t \<in> set ts\<close> by auto
  qed
  ultimately show ?case by (simp add: list_all_iff)
qed

lemma shape_filed:
  "keyed st \<Longrightarrow> shape st t \<Longrightarrow> frame_of st (f_id (objs st (root t))) = Some (root t) \<Longrightarrow>
   x \<in> set (postorder t) \<Longrightarrow> frame_of st (f_id (objs st x)) = Some x"
proof (induction t)
  case (Node r ts)
  show ?case
  proof (cases "x = r")
    case True then show ?thesis using Node.prems by simp
  next
    case False
    then obtain t where t: "t \<in> set ts" "x \<in> set (postorder t)"
      using Node.prems by auto
    have sh: "shape st t" using Node.prems t by (simp add: list_all_iff)
    have "root t \<in> set (childFrames st r)" using Node.prems t by auto
    from childFrames_filed[OF Node.prems(1) this]
    show ?thesis using Node.IH[OF t(1) Node.prems(1) sh _ t(2)] by simp
  qed
qed

text \<open>Frames filed under their own ids have different ids.\<close>

lemma filed_id_inj:
  "frame_of st (f_id (objs st x)) = Some x \<Longrightarrow> frame_of st (f_id (objs st y)) = Some y \<Longrightarrow>
   f_id (objs st x) = f_id (objs st y) \<Longrightarrow> x = y"
proof -
  assume a: "frame_of st (f_id (objs st x)) = Some x"
    and b: "frame_of st (f_id (objs st y)) = Some y"
    and c: "f_id (objs st x) = f_id (objs st y)"
  have "Some x = frame_of st (f_id (objs st y))" using a unfolding c by (rule sym)
  also have "\<dots> = Some y" by (rule b)
  finally show "x = y" by (rule option.inject[THEN iffD1])
qed

lemma removed_keeps_outside:
  assumes k: "keyed st" and r: "removed st xs st'"
    and filed: "\<And>x. x \<in> set xs \<Longrightarrow> frame_of st (f_id (objs st x)) = Some x"
    and y: "frame_of st (f_id (objs st y)) = Some y" "y \<notin> set xs"
  shows "frame_of st' (f_id (objs st' y)) = Some y"
proof -
  have "f_id (objs st y) \<notin> (\<lambda>x. f_id (objs st x)) ` set xs"
  proof
    assume "f_id (objs st y) \<in> (\<lambda>x. f_id (objs st x)) ` set xs"
    then obtain x where x: "x \<in> set xs" "f_id (objs st y) = f_id (objs st x)" by auto
    have "x = y" by (rule filed_id_inj[OF filed[OF x(1)] y(1) x(2)[symmetric]])
    with x(1) y(2) show False by blast
  qed
  moreover have "frame_of st' (f_id (objs st y)) =
      (if f_id (objs st y) \<in> (\<lambda>x. f_id (objs st x)) ` set xs then None
       else frame_of st (f_id (objs st y)))"
    by (rule removed_frame_of[OF r])
  ultimately show ?thesis using y(1) removed_ids[OF r, of y] by simp
qed

lemma forest_removed:
  assumes IH: "\<And>t st. t \<in> set ts \<Longrightarrow> keyed st \<Longrightarrow> shape st t \<Longrightarrow>
                 frame_of st (f_id (objs st (root t))) = Some (root t) \<Longrightarrow>
                 \<exists>st'. removeFramesRecursively n (root t) st = Some st'
                       \<and> removed st (postorder t) st'"
    and "keyed st"
    and "list_all (shape st) ts"
    and "distinct (concat (map postorder ts))"
    and "\<forall>t\<in>set ts. frame_of st (f_id (objs st (root t))) = Some (root t)"
  shows "\<exists>st'. for_each (removeFramesRecursively n) (map root ts) st = Some st'
             \<and> removed st (concat (map postorder ts)) st'"
  using assms
proof (induction ts arbitrary: st)
  case Nil
  show ?case by (simp add: removed_nil)
next
  case (Cons t rest)
  have sh_t: "shape st t" using Cons.prems(3) by simp
  have filed_t: "frame_of st (f_id (objs st (root t))) = Some (root t)"
    using Cons.prems(5) by simp
  obtain st1 where st1: "removeFramesRecursively n (root t) st = Some st1"
      and rem1: "removed st (postorder t) st1"
    using Cons.prems(1)[OF _ Cons.prems(2) sh_t filed_t] by auto
  have keyed1: "keyed st1" by (rule removed_keyed[OF Cons.prems(2) rem1])
  have disj: "set (postorder t) \<inter> set (postorder t') = {}" if "t' \<in> set rest" for t'
    using Cons.prems(4) that by auto
  have all_filed: "frame_of st (f_id (objs st x)) = Some x" if "x \<in> set (postorder t)" for x
    by (rule shape_filed[OF Cons.prems(2) sh_t filed_t that])
  have shape1: "shape st1 t'" if t': "t' \<in> set rest" for t'
  proof (rule shape_cong_nodes)
    show sh': "shape st t'" using Cons.prems(3) t' by (simp add: list_all_iff)
    show "childFrames st1 y = childFrames st y" if y: "y \<in> set (postorder t')" for y
    proof -
      have "set (childFrames st y) \<subseteq> set (postorder t')"
        by (rule shape_children_inside[OF sh' y])
      then have "\<forall>c\<in>set (childFrames st y). c \<notin> set (postorder t)"
        using disj[OF t'] by auto
      then show ?thesis
        unfolding removed_childFrames[OF rem1] by (simp add: filter_id_conv)
    qed
  qed
  have filed1: "frame_of st1 (f_id (objs st1 (root t'))) = Some (root t')"
    if t': "t' \<in> set rest" for t'
  proof (rule removed_keeps_outside[OF Cons.prems(2) rem1])
    show "frame_of st (f_id (objs st x)) = Some x" if "x \<in> set (postorder t)" for x
      by (rule all_filed[OF that])
    show "frame_of st (f_id (objs st (root t'))) = Some (root t')"
      using Cons.prems(5) t' by simp
    show "root t' \<notin> set (postorder t)"
      using disj[OF t'] root_in_postorder[of t'] by blast
  qed
  have "\<exists>st'. for_each (removeFramesRecursively n) (map root rest) st1 = Some st'
             \<and> removed st1 (concat (map postorder rest)) st'"
  proof (rule Cons.IH[OF _ keyed1])
    show "\<exists>st'. removeFramesRecursively n (root u) s = Some st' \<and> removed s (postorder u) st'"
      if "u \<in> set rest" "keyed s" "shape s u"
         "frame_of s (f_id (objs s (root u))) = Some (root u)" for u s
      using Cons.prems(1)[of u s] that by simp
    show "list_all (shape st1) rest" using shape1 by (simp add: list_all_iff)
    show "distinct (concat (map postorder rest))" using Cons.prems(4) by simp
    show "\<forall>t\<in>set rest. frame_of st1 (f_id (objs st1 (root t))) = Some (root t)"
      using filed1 by blast
  qed
  then obtain st2 where st2: "for_each (removeFramesRecursively n) (map root rest) st1 = Some st2"
      and rem2: "removed st1 (concat (map postorder rest)) st2" by blast
  have "removed st (postorder t @ concat (map postorder rest)) st2"
    by (rule removed_trans[OF rem1 rem2])
  then show ?case using st1 st2 by simp
qed

lemma length_postorder_child:
  "t \<in> set ts \<Longrightarrow> length (postorder t) \<le> length (concat (map postorder ts))"
  by (induction ts) auto

lemma tree_removed:
  "keyed st \<Longrightarrow> shape st t \<Longrightarrow> distinct (postorder t) \<Longrightarrow>
   frame_of st (f_id (objs st (root t))) = Some (root t) \<Longrightarrow>
   length (postorder t) \<le> fuel \<Longrightarrow>
   \<exists>st'. removeFramesRecursively fuel (root t) st = Some st' \<and> removed st (postorder t) st'"
proof (induction t arbitrary: st fuel)
  case (Node r ts)
  from Node.prems(5) obtain n where fuel: "fuel = Suc n" and n: "length (concat (map postorder ts)) \<le> n"
    by (cases fuel) auto
  have children: "childFrames st r = map root ts" and shapes: "list_all (shape st) ts"
    using Node.prems(2) by simp_all
  have dist: "distinct (concat (map postorder ts))" and r_new: "r \<notin> set (concat (map postorder ts))"
    using Node.prems(3) by simp_all
  have dist_t: "distinct (postorder t)" if "t \<in> set ts" for t
    using dist that by (induction ts) auto
  have roots_filed: "\<forall>t\<in>set ts. frame_of st (f_id (objs st (root t))) = Some (root t)"
  proof
    fix t assume "t \<in> set ts"
    then have "root t \<in> set (childFrames st r)" using children by simp
    then show "frame_of st (f_id (objs st (root t))) = Some (root t)"
      by (rule childFrames_filed[OF Node.prems(1)])
  qed
  have "\<exists>st'. for_each (removeFramesRecursively n) (map root ts) st = Some st'
             \<and> removed st (concat (map postorder ts)) st'"
  proof (rule forest_removed[OF _ Node.prems(1) shapes dist roots_filed])
    show "\<exists>st'. removeFramesRecursively n (root t) s = Some st' \<and> removed s (postorder t) st'"
      if "t \<in> set ts" "keyed s" "shape s t"
         "frame_of s (f_id (objs s (root t))) = Some (root t)" for t s
    proof (rule Node.IH[OF that(1,2,3) dist_t[OF that(1)] that(4)])
      show "length (postorder t) \<le> n"
        using length_postorder_child[OF that(1)] n by simp
    qed
  qed
  then obtain st1 where st1: "for_each (removeFramesRecursively n) (map root ts) st = Some st1"
      and rem1: "removed st (concat (map postorder ts)) st1" by blast
  have keyed1: "keyed st1" by (rule removed_keyed[OF Node.prems(1) rem1])
  have filed1: "frame_of st1 (f_id (objs st1 r)) = Some r"
  proof (rule removed_keeps_outside[OF Node.prems(1) rem1])
    show "frame_of st (f_id (objs st x)) = Some x"
      if "x \<in> set (concat (map postorder ts))" for x
    proof -
      from that obtain t where t: "t \<in> set ts" "x \<in> set (postorder t)" by auto
      have "shape st t" using shapes t(1) by (simp add: list_all_iff)
      from shape_filed[OF Node.prems(1) this _ t(2)] roots_filed t(1) show ?thesis by blast
    qed
    show "frame_of st (f_id (objs st r)) = Some r" using Node.prems(4) by simp
    show "r \<notin> set (concat (map postorder ts))" by (rule r_new)
  qed
  let ?st2 = "emit (F_FrameDetached r) (emit (FM_FrameDetached r)
              (removeFrame r (update_frame r dispose st1)))"
  have rem2: "removed st1 [r] ?st2" by (rule remove_one[OF keyed1 filed1])
  have "removed st (concat (map postorder ts) @ [r]) ?st2"
    by (rule removed_trans[OF rem1 rem2])
  moreover have "removeFramesRecursively fuel r st = Some ?st2"
    unfolding fuel by (simp add: children st1)
  ultimately show ?case by simp
qed

lemma page_A_tree:
  "t_frames (frameTree page_A) = [''A'' \<mapsto> 0]"
  "t_childIds (frameTree page_A) = (\<lambda>_. [])"
  "t_mainFrame (frameTree page_A) = Some 0"
  "f_id (objs page_A 0) = ''A''" "f_parentId (objs page_A 0) = None"
  "nextRef page_A = 1" "waitRequests page_A = []" "microtasks page_A = []"
  "awaitingSwap page_A = []" "f_waits (objs page_A 0) = []"
  by (simp_all add: page_A_def onFrameNavigated_def new_FrameManager_def empty_tree_def
      prim_defs waitForFrame_def runMicrotasks_def onFrameNavigated_resume_def
      main_payload_def new_CdpFrame_def navigated_def Let_def)

lemma attach_new:
  "frame_of st frameId = None \<Longrightarrow>
   onFrameAttached s frameId p st =
     emit (FM_FrameAttached (nextRef st))
       (addFrame (nextRef st)
          (st\<lparr>objs := (objs st)(nextRef st := new_CdpFrame frameId (Some p) s),
              nextRef := Suc (nextRef st)\<rparr>))"
  by (simp add: onFrameAttached_def allocate_def)

lemma family_tree:
  "t_frames (frameTree family) = [''A'' \<mapsto> 0, ''B'' \<mapsto> Suc 0, ''C'' \<mapsto> Suc (Suc 0)]"
  "t_childIds (frameTree family) = (\<lambda>_. [])(''A'' := [''B''], ''B'' := [''C''])"
  "t_mainFrame (frameTree family) = Some 0"
  "f_id (objs family 0) = ''A''" "f_id (objs family (Suc 0)) = ''B''" "f_id (objs family (Suc (Suc 0))) = ''C''"
  "awaitingSwap family = []" "f_waits (objs family 0) = []"
  "emitted family = emitted page_A @ [FM_FrameAttached (Suc 0), FM_FrameAttached (Suc (Suc 0))]"
proof -
  let ?st1 = "onFrameAttached sessionA ''B'' ''A'' page_A"
  have 1: "?st1 = emit (FM_FrameAttached (Suc 0))
       (addFrame (Suc 0) (page_A\<lparr>objs := (objs page_A)(Suc 0 := new_CdpFrame ''B'' (Some ''A'') sessionA),
              nextRef := Suc (Suc 0)\<rparr>))"
    using attach_new[of page_A "''B''" sessionA "''A''"]
    by (simp add: frame_of_def getById_def page_A_tree)
  have f1: "frame_of ?st1 ''C'' = None" "nextRef ?st1 = Suc (Suc 0)"
    unfolding 1 by (simp_all add: frame_of_def getById_def page_A_tree tree_addFrame_fields new_CdpFrame_def)
  have 2: "family = emit (FM_FrameAttached (Suc (Suc 0)))
       (addFrame (Suc (Suc 0)) (?st1\<lparr>objs := (objs ?st1)(Suc (Suc 0) := new_CdpFrame ''C'' (Some ''B'') sessionA),
              nextRef := Suc (Suc (Suc 0))\<rparr>))"
    unfolding family_def using attach_new[OF f1(1), of sessionA "''B''"] f1(2) by simp
  show "t_frames (frameTree family) = [''A'' \<mapsto> 0, ''B'' \<mapsto> Suc 0, ''C'' \<mapsto> Suc (Suc 0)]"
    unfolding 2 by (simp add: 1 tree_addFrame_fields new_CdpFrame_def page_A_tree)
  show "t_childIds (frameTree family) = (\<lambda>_. [])(''A'' := [''B''], ''B'' := [''C''])"
    unfolding 2 by (simp add: 1 tree_addFrame_fields new_CdpFrame_def page_A_tree)
  show "t_mainFrame (frameTree family) = Some 0"
    unfolding 2 by (simp add: 1 tree_addFrame_fields new_CdpFrame_def page_A_tree)
  show "f_id (objs family 0) = ''A''" "f_id (objs family (Suc 0)) = ''B''" "f_id (objs family (Suc (Suc 0))) = ''C''"
    "awaitingSwap family = []" "f_waits (objs family 0) = []"
    "emitted family = emitted page_A @ [FM_FrameAttached (Suc 0), FM_FrameAttached (Suc (Suc 0))]"
    unfolding 2 by (simp_all add: 1 new_CdpFrame_def page_A_tree)
qed

lemma family_keyed: "keyed family"
  unfolding keyed_def frame_of_def getById_def family_tree
  by (auto simp: family_tree split: if_splits)

lemma family_children:
  "childFrames family 0 = [Suc 0]" "childFrames family (Suc 0) = [Suc (Suc 0)]" "childFrames family (Suc (Suc 0)) = []"
  by (simp_all add: childFrames_def tree_childFrames_def family_tree List.map_filter_simps)

lemma family_shape: "shape family (Node 0 [Node (Suc 0) [Node (Suc (Suc 0)) []]])"
  by (simp add: family_children)

lemma family_frames:
  "frame_of family ''A'' = Some 0" "frame_of family ''B'' = Some (Suc 0)" "frame_of family ''C'' = Some (Suc (Suc 0))"
  "mainFrame family = Some 0"
  by (simp_all add: frame_of_def getById_def mainFrame_def getMainFrame_def family_tree)

subsection \<open>Recursive detach\<close>

lemma count_detach_notes:
  "length (filter is_FM_FrameDetached (detach_notes xs)) = length xs"
  by (induction xs) (simp_all add: detach_notes_def)

lemma length_postorder: "length (postorder t) = Suc (length (descendants t))"
  by (cases t) simp

text \<open>
  Claim C6. Let \<open>t\<close> be the part of the frame tree below the frame filed under \<open>frameId\<close>, with
  \<open>N\<close> descendants, in a tree whose frames are filed under their ids. With fuel for its
  depth, a frame-detached event with reason "remove" returns, emits on the frame manager
  (and on each frame) the \<open>FrameDetached\<close> notifications of the \<open>N + 1\<close> frames of \<open>t\<close> in
  post-order, deepest first, and afterwards none of their ids resolves in the tree.
\<close>

theorem recursive_detach_complete:
  assumes "keyed st" and "shape st t" and "distinct (postorder t)"
    and "frame_of st frameId = Some (root t)"
    and "length (descendants t) = N" and "N < fuel"
  shows "\<exists>st'. onFrameDetached fuel frameId Remove st = Some st'
       \<and> emitted st' = emitted st @ detach_notes (postorder t)
       \<and> length (filter is_FM_FrameDetached (detach_notes (postorder t))) = N + 1
       \<and> (\<forall>x\<in>set (postorder t). frame_of st' (f_id (objs st x)) = None)"
proof -
  have id_root: "f_id (objs st (root t)) = frameId"
    using assms(1,4) by (simp add: keyed_def)
  have filed: "frame_of st (f_id (objs st (root t))) = Some (root t)"
    using assms(4) id_root by simp
  have "length (postorder t) \<le> fuel" using assms(5,6) by (simp add: length_postorder)
  from tree_removed[OF assms(1-3) filed this] obtain st'
    where run: "removeFramesRecursively fuel (root t) st = Some st'"
      and rem: "removed st (postorder t) st'" by blast
  have "onFrameDetached fuel frameId Remove st = Some st'"
    using assms(4) run by (simp add: onFrameDetached_def)
  moreover have "emitted st' = emitted st @ detach_notes (postorder t)"
    by (rule removedD(1)[OF rem])
  moreover have "length (filter is_FM_FrameDetached (detach_notes (postorder t))) = N + 1"
    using assms(5) by (simp add: count_detach_notes length_postorder)
  moreover have "\<forall>x\<in>set (postorder t). frame_of st' (f_id (objs st x)) = None"
    unfolding removed_frame_of[OF rem] by simp
  ultimately show ?thesis by blast
qed

theorem recursive_detach_complete_witness:
  "\<exists>st'. onFrameDetached 2 ''B'' Remove family = Some st'
       \<and> emitted st' = emitted family
            @ [FM_FrameDetached 2, F_FrameDetached 2, FM_FrameDetached 1, F_FrameDetached 1]
       \<and> frame_of st' ''B'' = None \<and> frame_of st' ''C'' = None"
proof -
  have sh: "shape family (Node (Suc 0) [Node (Suc (Suc 0)) []])" by (simp add: family_children)
  from recursive_detach_complete[OF family_keyed sh, of "''B''" 1 2]
  show ?thesis by (auto simp: family_frames family_tree detach_notes_def numeral_2_eq_2)
qed

subsection \<open>Disconnect and swap timeout\<close>

lemma awaitingSwap_update_simps [simp]:
  "keyed (st\<lparr>awaitingSwap := aw\<rparr>) = keyed st"
  "childFrames (st\<lparr>awaitingSwap := aw\<rparr>) = childFrames st"
  by (simp_all add: keyed_def childFrames_def fun_eq_iff)

lemma swap_timeout_is_removal:
  assumes "find (\<lambda>w. fst w = r) (awaitingSwap st) = Some w"
    and "frame_of st (f_id (objs st r)) = Some r"
  shows "onSwapTimeout fuel r st
         = onFrameDetached fuel (f_id (objs st r)) Remove
             (st\<lparr>awaitingSwap := remove1 w (awaitingSwap st)\<rparr>)"
  using assms by (simp add: onSwapTimeout_def onFrameDetached_def)

lemma fail_pending_cases:
  "fail_pending w = (if w = Pending then Failed TargetClosed else w)"
  by (cases w) (simp_all add: fail_pending_def)

lemma disposed_waits:
  "length (f_waits (dispose f)) = length (f_waits f)
   \<and> (\<forall>i<length (f_waits f).
         f_waits (dispose f) ! i
           = (if f_waits f ! i = Pending then Failed TargetClosed else f_waits f ! i))"
  by (simp add: fail_pending_cases)

lemma disconnect_removes_children:
  assumes "keyed st" and "shape st t" and "distinct (postorder t)"
    and "mainFrame st = Some (root t)"
    and "frame_of st (f_id (objs st (root t))) = Some (root t)"
    and "length (postorder t) \<le> fuel"
  shows "\<exists>st0. onClientDisconnect fuel st
                 = Some (st0\<lparr>awaitingSwap := awaitingSwap st0 @ [(root t, TIME_FOR_WAITING_FOR_SWAP)]\<rparr>)
       \<and> removed st (descendants t) st0
       \<and> keyed st0
       \<and> frame_of st0 (f_id (objs st (root t))) = Some (root t)
       \<and> childFrames st0 (root t) = []"
proof -
  obtain r ts where t: "t = Node r ts" by (cases t)
  have children: "childFrames st r = map root ts" and shapes: "list_all (shape st) ts"
    using assms(2) t by simp_all
  have dist: "distinct (concat (map postorder ts))" and r_new: "r \<notin> set (concat (map postorder ts))"
    using assms(3) t by simp_all
  have dist_t: "distinct (postorder u)" if "u \<in> set ts" for u
    using dist that by (induction ts) auto
  have filed_r: "frame_of st (f_id (objs st r)) = Some r" using assms(5) t by simp
  have roots_filed: "\<forall>u\<in>set ts. frame_of st (f_id (objs st (root u))) = Some (root u)"
  proof
    fix u assume "u \<in> set ts"
    then have "root u \<in> set (childFrames st r)" using children by simp
    then show "frame_of st (f_id (objs st (root u))) = Some (root u)"
      by (rule childFrames_filed[OF assms(1)])
  qed
  have desc_filed: "frame_of st (f_id (objs st x)) = Some x"
    if "x \<in> set (concat (map postorder ts))" for x
  proof -
    from that obtain u where u: "u \<in> set ts" "x \<in> set (postorder u)" by auto
    have "shape st u" using shapes u(1) by (simp add: list_all_iff)
    from shape_filed[OF assms(1) this _ u(2)] roots_filed u(1) show ?thesis by blast
  qed
  have "\<exists>st'. for_each (removeFramesRecursively fuel) (map root ts) st = Some st'
             \<and> removed st (concat (map postorder ts)) st'"
  proof (rule forest_removed[OF _ assms(1) shapes dist roots_filed])
    show "\<exists>st'. removeFramesRecursively fuel (root u) s = Some st' \<and> removed s (postorder u) st'"
      if "u \<in> set ts" "keyed s" "shape s u"
         "frame_of s (f_id (objs s (root u))) = Some (root u)" for u s
    proof (rule tree_removed[OF that(2,3) dist_t[OF that(1)] that(4)])
      show "length (postorder u) \<le> fuel"
        using length_postorder_child[OF that(1)] assms(6) t by simp
    qed
  qed
  then obtain st0 where st0: "for_each (removeFramesRecursively fuel) (map root ts) st = Some st0"
      and rem0: "removed st (concat (map postorder ts)) st0" by blast
  have run1: "onClientDisconnect fuel st
                = Some (st0\<lparr>awaitingSwap := awaitingSwap st0 @ [(r, TIME_FOR_WAITING_FOR_SWAP)]\<rparr>)"
    using assms(4) t children st0 by (simp add: onClientDisconnect_def)
  have keyed0: "keyed st0" by (rule removed_keyed[OF assms(1) rem0])
  have filed0: "frame_of st0 (f_id (objs st0 r)) = Some r"
    by (rule removed_keeps_outside[OF assms(1) rem0 desc_filed filed_r r_new])
  have id0: "f_id (objs st0 r) = f_id (objs st r)" by (rule removed_ids[OF rem0])
  have no_children: "childFrames st0 r = []"
  proof -
    have "root u \<in> set (concat (map postorder ts))" if "u \<in> set ts" for u
      using that by (auto intro!: bexI[of _ u])
    then show ?thesis
      unfolding removed_childFrames[OF rem0] children by (simp add: filter_empty_conv)
  qed
  have "onClientDisconnect fuel st
          = Some (st0\<lparr>awaitingSwap := awaitingSwap st0 @ [(root t, TIME_FOR_WAITING_FOR_SWAP)]\<rparr>)
       \<and> removed st (descendants t) st0
       \<and> keyed st0
       \<and> frame_of st0 (f_id (objs st (root t))) = Some (root t)
       \<and> childFrames st0 (root t) = []"
    using run1 rem0 keyed0 filed0 id0 no_children by (simp add: t)
  then show ?thesis by (rule exI)
qed

lemma family_parents:
  "f_parentId (objs family 0) = None" "f_parentId (objs family (Suc 0)) = Some ''A''"
  "f_parentId (objs family (Suc (Suc 0))) = Some ''B''" "nextRef family = Suc (Suc (Suc 0))"
proof -
  let ?st1 = "onFrameAttached sessionA ''B'' ''A'' page_A"
  have 1: "?st1 = emit (FM_FrameAttached (Suc 0))
       (addFrame (Suc 0) (page_A\<lparr>objs := (objs page_A)(Suc 0 := new_CdpFrame ''B'' (Some ''A'') sessionA),
              nextRef := Suc (Suc 0)\<rparr>))"
    using attach_new[of page_A "''B''" sessionA "''A''"]
    by (simp add: frame_of_def getById_def page_A_tree)
  have f1: "frame_of ?st1 ''C'' = None" "nextRef ?st1 = Suc (Suc 0)"
    unfolding 1 by (simp_all add: frame_of_def getById_def page_A_tree tree_addFrame_fields new_CdpFrame_def)
  have 2: "family = emit (FM_FrameAttached (Suc (Suc 0)))
       (addFrame (Suc (Suc 0)) (?st1\<lparr>objs := (objs ?st1)(Suc (Suc 0) := new_CdpFrame ''C'' (Some ''B'') sessionA),
              nextRef := Suc (Suc (Suc 0))\<rparr>))"
    unfolding family_def using attach_new[OF f1(1), of sessionA "''B''"] f1(2) by simp
  show "f_parentId (objs family 0) = None" "f_parentId (objs family (Suc 0)) = Some ''A''"
    "f_parentId (objs family (Suc (Suc 0))) = Some ''B''" "nextRef family = Suc (Suc (Suc 0))"
    unfolding 2 by (simp_all add: 1 new_CdpFrame_def page_A_tree)
qed

lemma waiting_family_tree:
  "frameTree waiting_family = frameTree family"
  "f_id (objs waiting_family x) = f_id (objs family x)"
  "f_parentId (objs waiting_family x) = f_parentId (objs family x)"
  "f_waits (objs waiting_family 0) = [Pending]"
  "nextRef waiting_family = nextRef family"
  "awaitingSwap waiting_family = []"
  "emitted waiting_family = emitted family"
  "waitRequests waiting_family = waitRequests family"
  "microtasks waiting_family = microtasks family"
  "client waiting_family = client family"
  by (simp_all add: waiting_family_def startWait_def family_tree)

lemma waiting_family_keyed: "keyed waiting_family"
  using family_keyed by (simp add: keyed_def frame_of_def waiting_family_tree)

lemma waiting_family_shape: "shape waiting_family (Node 0 [Node (Suc 0) [Node (Suc (Suc 0)) []]])"
  by (rule shape_cong_nodes[OF _ family_shape])
     (simp add: childFrames_def waiting_family_tree)

lemma waiting_family_frames:
  "frame_of waiting_family = frame_of family" "mainFrame waiting_family = mainFrame family"
  by (simp_all add: frame_of_def mainFrame_def waiting_family_tree fun_eq_iff)

lemma held_A_eq:
  "onClientDisconnect 3 waiting_family = Some held_A"
  "held_A = (emit (F_FrameDetached (Suc 0))
      (emit (FM_FrameDetached (Suc 0))
        (removeFrame (Suc 0)
          (update_frame (Suc 0) dispose
            (emit (F_FrameDetached (Suc (Suc 0)))
              (emit (FM_FrameDetached (Suc (Suc 0)))
                (removeFrame (Suc (Suc 0))
                  (update_frame (Suc (Suc 0)) dispose waiting_family))))))))
     \<lparr>awaitingSwap := [(0, 100)]\<rparr>"
  by (simp_all add: held_A_def numeral_3_eq_3 onClientDisconnect_def mainFrame_def getMainFrame_def
      childFrames_def tree_childFrames_def waiting_family_tree family_tree family_parents
      List.map_filter_simps tree_removeFrame_fields TIME_FOR_WAITING_FOR_SWAP_def
      split: option.splits)

lemma held_A_tree:
  "t_frames (frameTree held_A) = [''A'' \<mapsto> 0]"
  "t_childIds (frameTree held_A) i = []"
  "t_mainFrame (frameTree held_A) = Some 0"
  "nextRef held_A = Suc (Suc (Suc 0))"
  "awaitingSwap held_A = [(0, 100)]"
  "f_id (objs held_A 0) = ''A''"
  "f_waits (objs held_A 0) = [Pending]"
  "waitRequests held_A = waitRequests family" "microtasks held_A = microtasks family"
  unfolding held_A_eq(2)
  by (simp_all add: waiting_family_tree family_tree family_parents tree_removeFrame_fields
      fun_eq_iff)

lemma late_child_eq:
  "late_child = emit (FM_FrameAttached (Suc (Suc (Suc 0))))
       (addFrame (Suc (Suc (Suc 0)))
          (held_A\<lparr>objs := (objs held_A)(Suc (Suc (Suc 0)) := new_CdpFrame ''D'' (Some ''A'') sessionA),
              nextRef := Suc (Suc (Suc (Suc 0)))\<rparr>))"
  unfolding late_child_def
  using attach_new[of held_A "''D''" sessionA "''A''"]
  by (simp add: frame_of_def getById_def held_A_tree)

lemma late_child_tree:
  "t_frames (frameTree late_child) = [''A'' \<mapsto> 0, ''D'' \<mapsto> Suc (Suc (Suc 0))]"
  "t_childIds (frameTree late_child) i = (if i = ''A'' then [''D''] else [])"
  "f_id (objs late_child 0) = ''A''" "f_id (objs late_child (Suc (Suc (Suc 0)))) = ''D''"
  "awaitingSwap late_child = [(0, 100)]"
  "f_waits (objs late_child 0) = [Pending]"
  "emitted late_child = emitted held_A @ [FM_FrameAttached (Suc (Suc (Suc 0)))]"
  unfolding late_child_eq
  by (simp_all add: tree_addFrame_fields new_CdpFrame_def held_A_tree)

lemma late_child_keyed: "keyed late_child"
  unfolding keyed_def frame_of_def getById_def late_child_tree(1)
  by (auto simp: late_child_tree(3,4) split: if_splits)

lemma late_child_shape: "shape late_child (Node 0 [Node (Suc (Suc (Suc 0))) []])"
  by (simp add: childFrames_def tree_childFrames_def late_child_tree List.map_filter_simps)

text \<open>
  Claim C2. Let \<open>t\<close> be the frame tree rooted at the main Frame, in a tree whose frames are
  filed under their ids. When the client disconnects, the handler (with fuel for the size
  of \<open>t\<close>) returns; all descendants of the main Frame are removed at once (detached,
  unresolvable, notified in post-order) while the main Frame stays in the tree, untouched
  and without children, and a swap wait with a timeout of 100 ms is registered on it. Let
  \<open>s\<close> be any state, its frames filed under their ids, in which a swap wait on the main
  Frame is pending, no swap signal having resolved it, and \<open>u\<close> the frame tree rooted at
  the main Frame by then; the state right after the disconnect is such a state, with
  nothing below the main Frame. When the wait times out in \<open>s\<close>, the handler (with fuel for
  the size of \<open>u\<close>) returns, and the main Frame and everything under it is removed
  recursively, by the very call an explicit removal event for the main Frame makes: the
  frames of \<open>u\<close> are notified in post-order, none of their ids resolves any more, each is
  detached, and each of their waits that was pending has failed with \<open>TargetClosed\<close>
  (the other waits are as they were).
\<close>

theorem disconnect_holds_main_frame_until_timeout:
  assumes "keyed st" and "shape st t" and "distinct (postorder t)"
    and "mainFrame st = Some (root t)"
    and "frame_of st (f_id (objs st (root t))) = Some (root t)"
    and "length (postorder t) \<le> fuel"
    and "keyed s" and "shape s u" and "distinct (postorder u)" and "root u = root t"
    and "frame_of s (f_id (objs s (root t))) = Some (root t)"
    and "find (\<lambda>w. fst w = root t) (awaitingSwap s) = Some w"
    and "length (postorder u) \<le> fuel'"
  shows "\<exists>st1 s2. onClientDisconnect fuel st = Some st1
       \<and> emitted st1 = emitted st @ detach_notes (descendants t)
       \<and> (\<forall>x\<in>set (descendants t). frame_of st1 (f_id (objs st x)) = None
                                    \<and> f_detached (objs st1 x))
       \<and> frame_of st1 (f_id (objs st (root t))) = Some (root t)
       \<and> mainFrame st1 = Some (root t)
       \<and> objs st1 (root t) = objs st (root t)
       \<and> childFrames st1 (root t) = []
       \<and> awaitingSwap st1 = awaitingSwap st @ [(root t, 100)]
       \<and> keyed st1 \<and> shape st1 (Node (root t) [])
       \<and> find (\<lambda>w. fst w = root t) (awaitingSwap st1) \<noteq> None
       \<and> onSwapTimeout fuel' (root t) s = Some s2
       \<and> onSwapTimeout fuel' (root t) s
           = onFrameDetached fuel' (f_id (objs s (root t))) Remove
               (s\<lparr>awaitingSwap := remove1 w (awaitingSwap s)\<rparr>)
       \<and> emitted s2 = emitted s @ detach_notes (postorder u)
       \<and> (\<forall>x\<in>set (postorder u).
             frame_of s2 (f_id (objs s x)) = None
           \<and> f_detached (objs s2 x)
           \<and> length (f_waits (objs s2 x)) = length (f_waits (objs s x))
           \<and> (\<forall>i<length (f_waits (objs s x)).
                 f_waits (objs s2 x) ! i
                   = (if f_waits (objs s x) ! i = Pending then Failed TargetClosed
                      else f_waits (objs s x) ! i)))"
proof -
  from disconnect_removes_children[OF assms(1-6)] obtain st0 where
    run1: "onClientDisconnect fuel st
             = Some (st0\<lparr>awaitingSwap := awaitingSwap st0 @ [(root t, TIME_FOR_WAITING_FOR_SWAP)]\<rparr>)"
    and rem0: "removed st (descendants t) st0"
    and keyed0: "keyed st0"
    and filed0: "frame_of st0 (f_id (objs st (root t))) = Some (root t)"
    and no_children: "childFrames st0 (root t) = []" by blast
  define st1 where "st1 = st0\<lparr>awaitingSwap := awaitingSwap st0 @ [(root t, TIME_FOR_WAITING_FOR_SWAP)]\<rparr>"
  have r_new: "root t \<notin> set (descendants t)" using assms(3) by (cases t) simp
  have a1: "emitted st1 = emitted st @ detach_notes (descendants t)"
    by (simp add: st1_def removedD(1)[OF rem0])
  have a2: "\<forall>x\<in>set (descendants t). frame_of st1 (f_id (objs st x)) = None
                                    \<and> f_detached (objs st1 x)"
    by (simp add: st1_def removed_frame_of[OF rem0] removed_objs[OF rem0])
  have a3: "frame_of st1 (f_id (objs st (root t))) = Some (root t)"
    using filed0 by (simp add: st1_def)
  have a4: "mainFrame st1 = Some (root t)"
    using removed_mainFrame[OF rem0 assms(4)] r_new by (simp add: st1_def)
  have a5: "objs st1 (root t) = objs st (root t)"
    using r_new by (simp add: st1_def removed_objs[OF rem0])
  have a6: "childFrames st1 (root t) = []"
    using no_children by (simp add: st1_def)
  have a7: "awaitingSwap st1 = awaitingSwap st @ [(root t, 100)]"
    by (simp add: st1_def removedD(6)[OF rem0] TIME_FOR_WAITING_FOR_SWAP_def)
  have a8: "keyed st1" using keyed0 by (simp add: st1_def)
  have a9: "shape st1 (Node (root t) [])" using a6 by simp
  have a10: "find (\<lambda>w. fst w = root t) (awaitingSwap st1) \<noteq> None"
    unfolding a7 find_None_iff by auto
  define s' where "s' = s\<lparr>awaitingSwap := remove1 w (awaitingSwap s)\<rparr>"
  have s'_objs: "objs s' = objs s" and s'_frames: "frame_of s' = frame_of s"
    and s'_emitted: "emitted s' = emitted s"
    by (simp_all add: s'_def)
  have "\<exists>st'. removeFramesRecursively fuel' (root u) s' = Some st'
             \<and> removed s' (postorder u) st'"
  proof (rule tree_removed)
    show "keyed s'" using assms(7) by (simp add: s'_def)
    show "shape s' u" by (rule shape_cong_nodes[OF _ assms(8)]) (simp add: s'_def)
    show "distinct (postorder u)" by (rule assms(9))
    show "frame_of s' (f_id (objs s' (root u))) = Some (root u)"
      using assms(10,11) by (simp add: s'_objs s'_frames)
    show "length (postorder u) \<le> fuel'" by (rule assms(13))
  qed
  then obtain s2 where run2: "removeFramesRecursively fuel' (root t) s' = Some s2"
      and rem2: "removed s' (postorder u) s2" using assms(10) by auto
  have b1: "onSwapTimeout fuel' (root t) s = Some s2"
    using assms(12) run2 by (simp add: onSwapTimeout_def s'_def)
  have b2: "onSwapTimeout fuel' (root t) s
       = onFrameDetached fuel' (f_id (objs s (root t))) Remove
           (s\<lparr>awaitingSwap := remove1 w (awaitingSwap s)\<rparr>)"
    by (rule swap_timeout_is_removal[OF assms(12,11)])
  have b3: "emitted s2 = emitted s @ detach_notes (postorder u)"
    by (simp add: removedD(1)[OF rem2] s'_emitted)
  have b4: "\<forall>x\<in>set (postorder u).
             frame_of s2 (f_id (objs s x)) = None
           \<and> f_detached (objs s2 x)
           \<and> length (f_waits (objs s2 x)) = length (f_waits (objs s x))
           \<and> (\<forall>i<length (f_waits (objs s x)).
                 f_waits (objs s2 x) ! i
                   = (if f_waits (objs s x) ! i = Pending then Failed TargetClosed
                      else f_waits (objs s x) ! i))"
  proof
    fix x assume x: "x \<in> set (postorder u)"
    have o: "objs s2 x = dispose (objs s x)"
      using x by (simp add: removed_objs[OF rem2] s'_objs)
    have f: "frame_of s2 (f_id (objs s x)) = None"
      using x by (simp add: removed_frame_of[OF rem2] s'_objs)
    show "frame_of s2 (f_id (objs s x)) = None
           \<and> f_detached (objs s2 x)
           \<and> length (f_waits (objs s2 x)) = length (f_waits (objs s x))
           \<and> (\<forall>i<length (f_waits (objs s x)).
                 f_waits (objs s2 x) ! i
                   = (if f_waits (objs s x) ! i = Pending then Failed TargetClosed
                      else f_waits (objs s x) ! i))"
      unfolding o using f disposed_waits[of "objs s x"] by simp
  qed
  have run1': "onClientDisconnect fuel st = Some st1" using run1 by (simp add: st1_def)
  show ?thesis
    by (intro exI[of _ st1] exI[of _ s2] conjI)
       (rule run1' a1 a2 a3 a4 a5 a6 a7 a8 a9 a10 b1 b2 b3 b4)+
qed

theorem disconnect_holds_main_frame_until_timeout_witness:
  "\<exists>st1 s2. onClientDisconnect 3 waiting_family = Some st1
       \<and> late_child = onFrameAttached sessionA ''D'' ''A'' st1
       \<and> emitted st1 = emitted waiting_family
            @ [FM_FrameDetached 2, F_FrameDetached 2, FM_FrameDetached 1, F_FrameDetached 1]
       \<and> frame_of st1 ''B'' = None \<and> frame_of st1 ''C'' = None
       \<and> frame_of st1 ''A'' = Some 0
       \<and> awaitingSwap st1 = [(0, 100)]
       \<and> onSwapTimeout 2 0 late_child = Some s2
       \<and> emitted s2 = emitted late_child
            @ [FM_FrameDetached 3, F_FrameDetached 3, FM_FrameDetached 0, F_FrameDetached 0]
       \<and> frame_of s2 ''D'' = None \<and> frame_of s2 ''A'' = None
       \<and> f_detached (objs s2 0)
       \<and> f_waits (objs late_child 0) = [Pending]
       \<and> length (f_waits (objs s2 0)) = 1
       \<and> f_waits (objs s2 0) ! 0 = Failed TargetClosed"
proof -
  have pending: "find (\<lambda>w. fst w = root (Node 0 [Node (Suc 0) [Node (Suc (Suc 0)) []]]))
                   (awaitingSwap late_child) = Some (0, 100)"
    by (simp add: late_child_tree)
  from disconnect_holds_main_frame_until_timeout
         [OF waiting_family_keyed waiting_family_shape _ _ _ _
             late_child_keyed late_child_shape _ _ _ pending, of 3 2]
  obtain st1 s2 where run1: "onClientDisconnect 3 waiting_family = Some st1"
    and a: "emitted st1 = emitted waiting_family
            @ [FM_FrameDetached 2, F_FrameDetached 2, FM_FrameDetached 1, F_FrameDetached 1]"
       "frame_of st1 ''B'' = None" "frame_of st1 ''C'' = None"
       "frame_of st1 ''A'' = Some 0"
       "awaitingSwap st1 = [(0, 100)]"
    and b: "onSwapTimeout 2 0 late_child = Some s2"
       "emitted s2 = emitted late_child
            @ [FM_FrameDetached 3, F_FrameDetached 3, FM_FrameDetached 0, F_FrameDetached 0]"
       "frame_of s2 ''D'' = None" "frame_of s2 ''A'' = None"
       "f_detached (objs s2 0)"
       "length (f_waits (objs s2 0)) = 1"
       "f_waits (objs s2 0) ! 0 = Failed TargetClosed"
    by (auto simp: waiting_family_frames family_frames waiting_family_tree family_tree
        late_child_tree frame_of_def[of late_child] getById_def
        detach_notes_def numeral_2_eq_2 numeral_3_eq_3)
  have "st1 = held_A" using run1 held_A_eq(1) by simp
  then have c: "late_child = onFrameAttached sessionA ''D'' ''A'' st1"
    by (simp add: late_child_def)
  show ?thesis
    using run1 a b c late_child_tree(6) by blast
qed

subsection \<open>World exclusivity\<close>

lemma no_rebind_refl [simp]: "no_rebind st st"
  by (simp add: no_rebind_def)

lemma no_rebind_trans: "no_rebind a b \<Longrightarrow> no_rebind b c \<Longrightarrow> no_rebind a c"
  unfolding no_rebind_def
proof (intro allI)
  fix x k
  assume ab: "\<forall>x k. held b x k = None \<or> held b x k = held a x k"
    and bc: "\<forall>x k. held c x k = None \<or> held c x k = held b x k"
  from bc have "held c x k = None \<or> held c x k = held b x k" by blast
  moreover from ab have "held b x k = None \<or> held b x k = held a x k" by blast
  ultimately show "held c x k = None \<or> held c x k = held a x k" by auto
qed

lemma no_rebind_same: "held b = held a \<Longrightarrow> no_rebind a b"
  by (simp add: no_rebind_def)

lemma held_simps [simp]:
  "held (emit n st) = held st"
  "held (removeFrame r st) = held st"
  "held (addFrame r st) = held st"
  "held (st\<lparr>client := c\<rparr>) = held st"
  "held (st\<lparr>frameNavigatedReceived := nr\<rparr>) = held st"
  "held (st\<lparr>awaitingSwap := aw\<rparr>) = held st"
  "held (st\<lparr>contextIdToContext := reg\<rparr>) = held st"
  "held (st\<lparr>emitted := em\<rparr>) = held st"
  "held (st\<lparr>microtasks := mt\<rparr>) = held st"
  "held (st\<lparr>waitRequests := wr\<rparr>) = held st"
  by (simp_all add: held_def fun_eq_iff)

lemma held_update_frame:
  "keeps_worlds g \<Longrightarrow> held (update_frame r g st) = held st"
  by (simp add: held_def fun_eq_iff keeps_worlds_def)

lemma keeps_worlds_simps [simp]:
  "keeps_worlds dispose" "keeps_worlds (navigated p)" "keeps_worlds (navigatedWithinDocument u)"
  "keeps_worlds (frame_onLifecycleEvent l n)" "keeps_worlds onLoadingStarted"
  "keeps_worlds onLoadingStopped" "keeps_worlds (updateClient c b)" "keeps_worlds (updateId i)"
  "keeps_worlds (\<lambda>f. f\<lparr>f_id := i\<rparr>)"
  by (simp_all add: keeps_worlds_def dispose_def navigated_def navigatedWithinDocument_def
      frame_onLifecycleEvent_def onLoadingStarted_def onLoadingStopped_def updateClient_def
      updateId_def)

lemma held_update_world:
  "held (update_world w g st) x k =
     (if (x, k) = w then w_context (g (f_worlds (objs st x) k)) else held st x k)"
  by (simp add: held_def update_world_context)

lemma nr_emit: "no_rebind s t \<Longrightarrow> no_rebind s (emit n t)"
  by (simp add: no_rebind_def)

lemma nr_removeFrame: "no_rebind s t \<Longrightarrow> no_rebind s (removeFrame r t)"
  by (simp add: no_rebind_def)

lemma nr_addFrame: "no_rebind s t \<Longrightarrow> no_rebind s (addFrame r t)"
  by (simp add: no_rebind_def)

lemma nr_update_frame: "keeps_worlds g \<Longrightarrow> no_rebind s t \<Longrightarrow> no_rebind s (update_frame r g t)"
  by (simp add: no_rebind_def held_update_frame)

lemma nr_clear: "no_rebind s t \<Longrightarrow> no_rebind s (update_world w clearContext t)"
  by (rule no_rebind_trans[of s t])
     (simp_all add: no_rebind_def held_update_world clearContext_def)

lemma nr_allocate:
  "no_rebind s t \<Longrightarrow>
   no_rebind s (t\<lparr>objs := (objs t)(nextRef t := new_CdpFrame i p c), nextRef := Suc (nextRef t)\<rparr>)"
  by (rule no_rebind_trans[of s t])
     (simp_all add: no_rebind_def held_def new_CdpFrame_def)

lemma nr_waitForFrame: "no_rebind s t \<Longrightarrow> no_rebind s (waitForFrame p n t)"
  by (cases "frame_of t (fp_id p)") (simp_all add: waitForFrame_def no_rebind_def)

lemma nr_for_each:
  assumes "\<And>x s s'. body x s = Some s' \<Longrightarrow> no_rebind s s'"
  shows "for_each body xs st = Some st' \<Longrightarrow> no_rebind st st'"
proof (induction xs arbitrary: st)
  case Nil then show ?case by simp
next
  case (Cons x xs)
  from Cons.prems obtain s1 where s1: "body x st = Some s1" "for_each body xs s1 = Some st'"
    by (auto split: option.splits)
  show ?case by (rule no_rebind_trans[OF assms[OF s1(1)] Cons.IH[OF s1(2)]])
qed

lemma nr_removeFramesRecursively:
  "removeFramesRecursively fuel r st = Some st' \<Longrightarrow> no_rebind st st'"
proof (induction fuel arbitrary: r st st')
  case 0 then show ?case by simp
next
  case (Suc n)
  from Suc.prems obtain s1 where s1: "for_each (removeFramesRecursively n) (childFrames st r) st = Some s1"
    and st': "st' = emit (F_FrameDetached r) (emit (FM_FrameDetached r)
                 (removeFrame r (update_frame r dispose s1)))"
    by (auto split: option.splits)
  have "no_rebind st s1" by (rule nr_for_each[OF Suc.IH s1])
  then show ?case unfolding st'
    by (intro nr_emit nr_removeFrame nr_update_frame) simp_all
qed

lemma nr_remove_children:
  assumes "for_each (removeFramesRecursively fuel) xs st = Some st'"
  shows "no_rebind st st'"
proof (rule nr_for_each[of "removeFramesRecursively fuel" xs st st'])
  show "no_rebind s s'" if "removeFramesRecursively fuel x s = Some s'" for x s s'
    using that by (rule nr_removeFramesRecursively)
  show "for_each (removeFramesRecursively fuel) xs st = Some st'" by (rule assms)
qed

lemma nr_onFrameAttached: "no_rebind st (onFrameAttached s i p st)"
proof (cases "frame_of st i")
  case None
  then show ?thesis
    by (simp add: onFrameAttached_def allocate_def)
       (intro nr_emit nr_addFrame nr_allocate no_rebind_refl)
next
  case (Some r)
  then show ?thesis
    by (simp add: onFrameAttached_def nr_update_frame)
qed

lemma nr_onFrameNavigated:
  assumes "onFrameNavigated fuel p n st = Some st'"
  shows "no_rebind st st'"
proof -
  let ?frame = "getById (frameTree st) (fp_id p)"
  obtain s1 where s1: "(case ?frame of
                 Some r \<Rightarrow> for_each (removeFramesRecursively fuel) (childFrames st r) st
               | None \<Rightarrow> Some st) = Some s1"
    and st': "st' = waitForFrame p n
               (if \<not> truthy (fp_parentId p) then
                  (case ?frame of
                     Some r \<Rightarrow>
                       addFrame r (update_frame r (\<lambda>f. f\<lparr>f_id := fp_id p\<rparr>) (removeFrame r s1))
                   | None \<Rightarrow>
                       (case allocate (new_CdpFrame (fp_id p) None (client s1)) s1 of
                          (r, st) \<Rightarrow> addFrame r st))
                else s1)"
    using assms by (auto simp: onFrameNavigated_def Let_def split: option.splits)
  have a: "no_rebind st s1"
  proof (cases ?frame)
    case None with s1 show ?thesis by simp
  next
    case (Some r)
    with s1 have "for_each (removeFramesRecursively fuel) (childFrames st r) st = Some s1" by simp
    then show ?thesis by (rule nr_remove_children)
  qed
  show ?thesis unfolding st'
    by (cases ?frame)
       (auto simp: allocate_def intro!: nr_waitForFrame nr_addFrame nr_update_frame
          nr_removeFrame nr_allocate a)
qed

lemma nr_simple_handlers:
  "no_rebind st (onFrameNavigatedWithinDocument i u st)"
  "no_rebind st (onLifecycleEvent ev st)"
  "no_rebind st (onFrameStartedLoading i st)"
  "no_rebind st (onFrameStoppedLoading i st)"
  "no_rebind st (onAttachedToTarget target st)"
proof -
  show "no_rebind st (onFrameNavigatedWithinDocument i u st)"
    by (cases "frame_of st i")
       (simp_all add: onFrameNavigatedWithinDocument_def nr_emit nr_update_frame)
  show "no_rebind st (onLifecycleEvent ev st)"
    by (cases "frame_of st (lp_frameId ev)")
       (simp_all add: onLifecycleEvent_def nr_emit nr_update_frame)
  show "no_rebind st (onFrameStartedLoading i st)"
    by (cases "frame_of st i") (simp_all add: onFrameStartedLoading_def nr_update_frame)
  show "no_rebind st (onFrameStoppedLoading i st)"
    by (cases "frame_of st i")
       (simp_all add: onFrameStoppedLoading_def nr_emit nr_update_frame)
  show "no_rebind st (onAttachedToTarget target st)"
    by (cases "frame_of st (ti_targetId target)")
       (simp_all add: onAttachedToTarget_def nr_update_frame)
qed

lemma nr_onFrameDetached:
  "onFrameDetached fuel i reason st = Some st' \<Longrightarrow> no_rebind st st'"
proof (cases "frame_of st i")
  case None
  assume "onFrameDetached fuel i reason st = Some st'"
  with None show ?thesis by (simp add: onFrameDetached_def)
next
  case (Some r)
  assume run: "onFrameDetached fuel i reason st = Some st'"
  show ?thesis
  proof (cases reason)
    case Remove
    with run Some show ?thesis
      by (simp add: onFrameDetached_def nr_removeFramesRecursively)
  next
    case Swap
    with run Some show ?thesis by (auto simp: onFrameDetached_def intro!: nr_emit)
  next
    case OtherReason
    with run Some show ?thesis by (simp add: onFrameDetached_def)
  qed
qed

lemma nr_onExecutionContextDestroyed:
  "no_rebind st (onExecutionContextDestroyed i s st)"
  by (cases "map_of (contextIdToContext st) (context_key s i)")
     (simp_all add: onExecutionContextDestroyed_def Let_def nr_clear no_rebind_same)

lemma nr_clear_entry: "no_rebind st (clear_entry s e st)"
proof -
  obtain key ctx where e: "e = (key, ctx)" by (cases e)
  have "no_rebind st ((update_world (ec_world ctx) clearContext st)
          \<lparr>contextIdToContext := AList.delete key (contextIdToContext st)\<rparr>)"
    by (rule no_rebind_trans[of st "update_world (ec_world ctx) clearContext st"])
       (simp_all add: nr_clear no_rebind_same)
  then show ?thesis by (simp add: e clear_entry_def)
qed

lemma nr_fold:
  assumes "\<And>x s. no_rebind s (f x s)"
  shows "no_rebind st (fold f xs st)"
proof (induction xs arbitrary: st)
  case Nil show ?case by simp
next
  case (Cons x xs)
  show ?case using no_rebind_trans[OF assms[of st x] Cons[of "f x st"]] by simp
qed

lemma nr_onExecutionContextsCleared: "no_rebind st (onExecutionContextsCleared s st)"
  unfolding onExecutionContextsCleared_def by (rule nr_fold) (rule nr_clear_entry)

lemma nr_resume: "no_rebind st (onFrameNavigated_resume task st)"
  by (cases task) (simp add: onFrameNavigated_resume_def nr_emit nr_update_frame)

lemma nr_runMicrotasks: "no_rebind st (runMicrotasks st)"
proof -
  have "no_rebind (st\<lparr>microtasks := []\<rparr>)
          (fold onFrameNavigated_resume (microtasks st) (st\<lparr>microtasks := []\<rparr>))"
    by (rule nr_fold) (rule nr_resume)
  then show ?thesis
    unfolding runMicrotasks_def by (rule no_rebind_trans[rotated]) (simp add: no_rebind_same)
qed

lemma nr_handleFrameTree:
  "handleFrameTree fuel s tree st = Some st' \<Longrightarrow> no_rebind st st'"
  "handleFrameTrees fuel s trees st = Some st' \<Longrightarrow> no_rebind st st'"
proof (induction fuel s tree st and fuel s trees st arbitrary: st' and st'
       rule: handleFrameTree_handleFrameTrees.induct)
  case (1 fuel session frame children st)
  define s1 where "s1 = (case fp_parentId frame of
                  Some parentId \<Rightarrow>
                    (if parentId \<noteq> [] then onFrameAttached session (fp_id frame) parentId st
                     else st)
                | None \<Rightarrow> st)"
  have a: "no_rebind st s1"
    unfolding s1_def by (simp add: nr_onFrameAttached split: option.splits)
  from "1.prems" obtain s2 where
    s2: "(if fp_id frame \<notin> frameNavigatedReceived s1
               then onFrameNavigated fuel frame Navigation s1
               else Some (s1\<lparr>frameNavigatedReceived := frameNavigatedReceived s1 - {fp_id frame}\<rparr>))
         = Some s2"
    and rest: "handleFrameTrees fuel session children s2 = Some st'"
    by (auto simp: s1_def[symmetric] Let_def split: option.splits)
  have b: "no_rebind s1 s2"
  proof (cases "fp_id frame \<notin> frameNavigatedReceived s1")
    case True
    with s2 show ?thesis by (simp add: nr_onFrameNavigated)
  next
    case False
    with s2 show ?thesis by (auto simp: no_rebind_same)
  qed
  have c: "no_rebind s2 st'"
    by (rule "1.IH"[OF s1_def s2 rest])
  show ?case by (rule no_rebind_trans[OF no_rebind_trans[OF a b] c])
next
  case (2 fuel session st)
  then show ?case by simp
next
  case (3 fuel session child rest st)
  from "3.prems" obtain s1 where s1: "handleFrameTree fuel session child st = Some s1"
    and r: "handleFrameTrees fuel session rest s1 = Some st'"
    by (auto split: option.splits)
  show ?case by (rule no_rebind_trans[OF "3.IH"(1)[OF s1] "3.IH"(2)[OF s1 r]])
qed

lemma nr_held_eq: "no_rebind s t \<Longrightarrow> held t' = held t \<Longrightarrow> no_rebind s t'"
  by (simp add: no_rebind_def)

lemma nr_onClientDisconnect:
  "onClientDisconnect fuel st = Some st' \<Longrightarrow> no_rebind st st'"
proof (cases "mainFrame st")
  case None
  assume "onClientDisconnect fuel st = Some st'"
  with None show ?thesis by (simp add: onClientDisconnect_def)
next
  case (Some r)
  assume "onClientDisconnect fuel st = Some st'"
  with Some obtain s1 where s1: "for_each (removeFramesRecursively fuel) (childFrames st r) st = Some s1"
    and st': "st' = s1\<lparr>awaitingSwap := awaitingSwap s1 @ [(r, TIME_FOR_WAITING_FOR_SWAP)]\<rparr>"
    by (auto simp: onClientDisconnect_def split: option.splits)
  show ?thesis unfolding st'
    by (rule no_rebind_trans[OF nr_remove_children[OF s1]]) (simp add: no_rebind_same)
qed

lemma nr_onSwapTimeout:
  "onSwapTimeout fuel r st = Some st' \<Longrightarrow> no_rebind st st'"
proof (cases "find (\<lambda>w. fst w = r) (awaitingSwap st)")
  case None
  assume "onSwapTimeout fuel r st = Some st'"
  with None show ?thesis by (simp add: onSwapTimeout_def)
next
  case (Some w)
  assume "onSwapTimeout fuel r st = Some st'"
  with Some have "removeFramesRecursively fuel r (st\<lparr>awaitingSwap := remove1 w (awaitingSwap st)\<rparr>)
        = Some st'"
    by (simp add: onSwapTimeout_def)
  from nr_removeFramesRecursively[OF this] show ?thesis
    by (rule no_rebind_trans[rotated]) (simp add: no_rebind_same)
qed

lemma nr_rebind: "no_rebind s t \<Longrightarrow> no_rebind s (swapFrameTree_rebind c r t)"
  unfolding swapFrameTree_rebind_def Let_def
  by (intro nr_update_frame nr_addFrame nr_clear nr_removeFrame keeps_worlds_simps)
     (rule no_rebind_trans[of s t], simp_all add: no_rebind_same)

lemma nr_swapFrameTree: "no_rebind st (snd (snd (swapFrameTree c st)))"
proof -
  let ?s0 = "(onExecutionContextsCleared (client st) st)\<lparr>client := c\<rparr>"
  have a: "no_rebind st ?s0"
    by (rule no_rebind_trans[OF nr_onExecutionContextsCleared[of st "client st"]])
       (simp add: no_rebind_same)
  have b: "no_rebind st (swapFrameTree_rebind c r ?s0)" for r
    by (rule nr_rebind[OF a])
  show ?thesis
    using a b by (simp add: swapFrameTree_def Let_def split: option.splits)
qed

lemma nr_swapFrameTree_resume: "no_rebind st (swapFrameTree_resume frame st)"
proof (cases frame)
  case None
  then show ?thesis by (simp add: swapFrameTree_resume_def)
next
  case (Some r)
  have "no_rebind st (emit_FrameSwappedByActivation r st)"
    unfolding emit_FrameSwappedByActivation_def
    by (rule nr_held_eq[OF nr_emit[OF no_rebind_refl]]) simp
  with Some show ?thesis by (simp add: swapFrameTree_resume_def)
qed

lemma nr_listener:
  assumes "listener fuel ev st = Some st'"
    and "\<And>p s. ev \<noteq> Runtime_executionContextCreated p s"
  shows "no_rebind st st'"
proof (cases ev)
  case (Page_frameAttached s i p)
  with assms(1) show ?thesis by (auto simp: nr_onFrameAttached)
next
  case (Page_frameNavigated p n)
  with assms(1) have "onFrameNavigated fuel p n
       (st\<lparr>frameNavigatedReceived := insert (fp_id p) (frameNavigatedReceived st)\<rparr>) = Some st'"
    by simp
  from nr_onFrameNavigated[OF this] show ?thesis
    by (rule no_rebind_trans[rotated]) (simp add: no_rebind_same)
next
  case (Page_navigatedWithinDocument i u)
  with assms(1) show ?thesis by (auto simp: nr_simple_handlers)
next
  case (Page_frameDetached i reason)
  with assms(1) show ?thesis by (simp add: nr_onFrameDetached)
next
  case (Page_frameStartedLoading i)
  with assms(1) show ?thesis by (auto simp: nr_simple_handlers)
next
  case (Page_frameStoppedLoading i)
  with assms(1) show ?thesis by (auto simp: nr_simple_handlers)
next
  case (Runtime_executionContextCreated p s)
  with assms(2)[of p s] show ?thesis by blast
next
  case (Runtime_executionContextDestroyed i s)
  with assms(1) show ?thesis by (auto simp: nr_onExecutionContextDestroyed)
next
  case (Runtime_executionContextsCleared s)
  with assms(1) show ?thesis by (auto simp: nr_onExecutionContextsCleared)
next
  case (Page_lifecycleEvent e)
  with assms(1) show ?thesis by (auto simp: nr_simple_handlers)
next
  case (Page_getFrameTree_reply s reply)
  with assms(1) show ?thesis by (simp add: nr_handleFrameTree)
next
  case (AttachedToTarget target)
  with assms(1) show ?thesis by (auto simp: nr_simple_handlers)
next
  case Disconnected
  with assms(1) show ?thesis by (simp add: nr_onClientDisconnect)
next
  case (SwapTimeout r)
  with assms(1) show ?thesis by (simp add: nr_onSwapTimeout)
next
  case (Swapped c)
  with assms(1) show ?thesis by (auto simp: nr_swapFrameTree)
next
  case (SwapInitialized frame)
  with assms(1) show ?thesis by (auto simp: nr_swapFrameTree_resume)
qed

lemma context_created_binding:
  "held (onExecutionContextCreated p s st) x k = held st x k
   \<or> (bound_by (Runtime_executionContextCreated p s) st x k
         \<lparr>ec_client = s, ec_payload = p, ec_world = (x, k)\<rparr>
      \<and> held (onExecutionContextCreated p s st) x k
           = Some \<lparr>ec_client = s, ec_payload = p, ec_world = (x, k)\<rparr>
      \<and> (k = PUPPETEER_WORLD \<longrightarrow> held st x k = None))"
proof (cases "cp_auxFrameId p")
  case None
  then show ?thesis by (simp add: onExecutionContextCreated_def)
next
  case (Some frameId)
  show ?thesis
  proof (cases "frame_of st frameId")
    case None
    with Some show ?thesis by (simp add: onExecutionContextCreated_def)
  next
    case found: (Some r)
    show ?thesis
    proof (cases "f_client (objs st r) = s")
      case False
      with Some found show ?thesis by (simp add: onExecutionContextCreated_def)
    next
      case True
      show ?thesis
      proof (cases "pick_world p r (objs st r)")
        case None
        with Some found True show ?thesis by (simp add: onExecutionContextCreated_def)
      next
        case picked: (Some w)
        have run: "onExecutionContextCreated p s st =
            (update_world w (setContext \<lparr>ec_client = s, ec_payload = p, ec_world = w\<rparr>) st)
              \<lparr>contextIdToContext := AList.update (context_key s (cp_id p))
                \<lparr>ec_client = s, ec_payload = p, ec_world = w\<rparr> (contextIdToContext st)\<rparr>"
          using Some found True picked by (simp add: onExecutionContextCreated_def Let_def)
        show ?thesis
        proof (cases "(x, k) = w")
          case False
          then show ?thesis by (simp add: run held_update_world)
        next
          case same: True
          from picked same have xr: "x = r"
            by (auto simp: pick_world_def split: if_splits)
          from picked same have kind: "(case k of
                MAIN_WORLD \<Rightarrow> cp_isDefault p
              | PUPPETEER_WORLD \<Rightarrow> \<not> cp_isDefault p \<and> cp_name p = UTILITY_WORLD_NAME)"
            by (auto simp: pick_world_def split: if_splits)
          from picked same have empty: "k = PUPPETEER_WORLD \<longrightarrow> held st x k = None"
            by (auto simp: pick_world_def hasContext_def held_def split: if_splits)
          have "held (onExecutionContextCreated p s st) x k
                  = Some \<lparr>ec_client = s, ec_payload = p, ec_world = (x, k)\<rparr>"
            using same by (simp add: run held_update_world setContext_def)
          then show ?thesis using Some found True xr kind empty by simp
        qed
      qed
    qed
  qed
qed

lemma runMicrotasks_idle: "microtasks st = [] \<Longrightarrow> runMicrotasks st = st"
  by (simp add: runMicrotasks_def)

lemma utility_bound_A_eval:
  "frame_of utility_bound_A ''A'' = Some 0"
  "held utility_bound_A 0 PUPPETEER_WORLD
     = Some \<lparr>ec_client = sessionA, ec_payload = utility_payload 1 ''A'',
             ec_world = (0, PUPPETEER_WORLD)\<rparr>"
  "microtasks utility_bound_A = []"
proof -
  have first: "utility_bound_A = page_A\<lparr>objs := (objs page_A)(0 := (objs page_A 0)\<lparr>f_worlds := (f_worlds (objs page_A 0))
             (PUPPETEER_WORLD := setContext
                \<lparr>ec_client = sessionA, ec_payload = utility_payload 1 ''A'', ec_world = (0, PUPPETEER_WORLD)\<rparr>
                (f_worlds (objs page_A 0) PUPPETEER_WORLD))\<rparr>),
        contextIdToContext := AList.update (context_key sessionA (cp_id (utility_payload 1 ''A'')))
            \<lparr>ec_client = sessionA, ec_payload = utility_payload 1 ''A'', ec_world = (0, PUPPETEER_WORLD)\<rparr>
            (contextIdToContext page_A)\<rparr>"
    unfolding utility_bound_A_def
    by (rule utility_context_bound[where frameId = "''A''"])
       (simp_all add: page_A_eval utility_payload_def)
  show "frame_of utility_bound_A ''A'' = Some 0"
    unfolding first by (simp add: page_A_eval)
  show "held utility_bound_A 0 PUPPETEER_WORLD
     = Some \<lparr>ec_client = sessionA, ec_payload = utility_payload 1 ''A'',
             ec_world = (0, PUPPETEER_WORLD)\<rparr>"
    unfolding first by (simp add: held_def setContext_def)
  show "microtasks utility_bound_A = []"
    unfolding first by (simp add: page_A_eval)
qed

lemma held_runMicrotasks: "held (runMicrotasks st) = held st"
proof -
  have step: "held (onFrameNavigated_resume task s) = held s" for task s
    by (cases task) (simp add: onFrameNavigated_resume_def held_update_frame)
  have "held (fold onFrameNavigated_resume tasks s) = held s" for tasks s
    by (induction tasks arbitrary: s) (simp_all add: step)
  then show ?thesis by (simp add: runMicrotasks_def)
qed

lemma default_context_bound:
  assumes "frame_of st frameId = Some x" and "f_client (objs st x) = s"
    and "cp_auxFrameId p = Some frameId" and "cp_isDefault p"
  shows "onExecutionContextCreated p s st =
     (update_world (x, MAIN_WORLD)
         (setContext \<lparr>ec_client = s, ec_payload = p, ec_world = (x, MAIN_WORLD)\<rparr>) st)
       \<lparr>contextIdToContext := AList.update (context_key s (cp_id p))
           \<lparr>ec_client = s, ec_payload = p, ec_world = (x, MAIN_WORLD)\<rparr>
           (contextIdToContext st)\<rparr>"
  using assms by (simp add: onExecutionContextCreated_def pick_world_def Let_def)

text \<open>
  Claim C5, as amended. In one turn of the event loop, whatever the event, every World of
  every Frame ends with no context, with the context it held before, or with the
  ExecutionContext that the turn's context-created event constructs for it. Exclusivity
  is guarded for the utility World only: it is given such a context only when it held
  none, and the handler of a context-created event that is not a default context, for a
  frame of the tree whose utility World holds a context, leaves the whole state as it is
  (the first one wins). The main World has no guard: a default context-created event, on
  the session of a frame of the tree, binds its ExecutionContext to that frame's main
  World whatever the World held before.
\<close>

theorem world_context_exclusive:
  assumes "dispatch fuel ev st = Some st'"
  shows "(\<forall>x k. held st' x k = None \<or> held st' x k = held st x k
             \<or> (\<exists>c. bound_by ev st x k c \<and> held st' x k = Some c
                    \<and> (k = PUPPETEER_WORLD \<longrightarrow> held st x k = None)))
       \<and> (\<forall>p s frameId x.
             ev = Runtime_executionContextCreated p s \<and> \<not> cp_isDefault p
             \<and> cp_auxFrameId p = Some frameId \<and> frame_of st frameId = Some x
             \<and> held st x PUPPETEER_WORLD \<noteq> None
             \<longrightarrow> listener fuel ev st = Some st)
       \<and> (\<forall>p s frameId x.
             ev = Runtime_executionContextCreated p s \<and> cp_isDefault p
             \<and> cp_auxFrameId p = Some frameId \<and> frame_of st frameId = Some x
             \<and> f_client (objs st x) = s
             \<longrightarrow> held st' x MAIN_WORLD
                   = Some \<lparr>ec_client = s, ec_payload = p, ec_world = (x, MAIN_WORLD)\<rparr>)"
proof (intro conjI allI impI)
  fix x k
  from assms obtain s1 where s1: "listener fuel ev st = Some s1" and st': "st' = runMicrotasks s1"
    by (auto simp: dispatch_def)
  have late: "held st' x k = None \<or> held st' x k = held s1 x k"
    using nr_runMicrotasks[of s1] unfolding st' no_rebind_def by blast
  show "held st' x k = None \<or> held st' x k = held st x k
      \<or> (\<exists>c. bound_by ev st x k c \<and> held st' x k = Some c
             \<and> (k = PUPPETEER_WORLD \<longrightarrow> held st x k = None))"
  proof (cases "\<exists>p s. ev = Runtime_executionContextCreated p s")
    case False
    then have "no_rebind st s1" using nr_listener[OF s1] by blast
    then have "held s1 x k = None \<or> held s1 x k = held st x k"
      unfolding no_rebind_def by blast
    with late show ?thesis by auto
  next
    case True
    then obtain p s where ev: "ev = Runtime_executionContextCreated p s" by blast
    with s1 have s1_eq: "s1 = onExecutionContextCreated p s st" by simp
    from context_created_binding[of p s st x k] late show ?thesis
      unfolding ev s1_eq[symmetric] by auto
  qed
next
  fix p s frameId x
  assume a: "ev = Runtime_executionContextCreated p s \<and> \<not> cp_isDefault p
             \<and> cp_auxFrameId p = Some frameId \<and> frame_of st frameId = Some x
             \<and> held st x PUPPETEER_WORLD \<noteq> None"
  then have "onExecutionContextCreated p s st = st"
    using utility_context_ignored[of st frameId x p s] by (simp add: held_def)
  with a show "listener fuel ev st = Some st" by simp
next
  fix p s frameId x
  assume a: "ev = Runtime_executionContextCreated p s \<and> cp_isDefault p
             \<and> cp_auxFrameId p = Some frameId \<and> frame_of st frameId = Some x
             \<and> f_client (objs st x) = s"
  then have run: "onExecutionContextCreated p s st =
     (update_world (x, MAIN_WORLD)
         (setContext \<lparr>ec_client = s, ec_payload = p, ec_world = (x, MAIN_WORLD)\<rparr>) st)
       \<lparr>contextIdToContext := AList.update (context_key s (cp_id p))
           \<lparr>ec_client = s, ec_payload = p, ec_world = (x, MAIN_WORLD)\<rparr>
           (contextIdToContext st)\<rparr>"
    using default_context_bound[of st frameId x s p] by blast
  from assms a have "st' = runMicrotasks (onExecutionContextCreated p s st)"
    by (auto simp: dispatch_def)
  then show "held st' x MAIN_WORLD
               = Some \<lparr>ec_client = s, ec_payload = p, ec_world = (x, MAIN_WORLD)\<rparr>"
    by (simp add: held_runMicrotasks run held_update_world setContext_def)
qed

theorem world_context_exclusive_witness:
  "dispatch 1 (Runtime_executionContextCreated (utility_payload 2 ''A'') sessionA) utility_bound_A
     = Some utility_bound_A
   \<and> listener 1 (Runtime_executionContextCreated (utility_payload 2 ''A'') sessionA) utility_bound_A
     = Some utility_bound_A
   \<and> held utility_bound_A 0 PUPPETEER_WORLD
     = Some \<lparr>ec_client = sessionA, ec_payload = utility_payload 1 ''A'',
             ec_world = (0, PUPPETEER_WORLD)\<rparr>"
proof -
  let ?ev = "Runtime_executionContextCreated (utility_payload 2 ''A'') sessionA"
  have "onExecutionContextCreated (utility_payload 2 ''A'') sessionA utility_bound_A
          = utility_bound_A"
    by (rule utility_context_ignored[OF utility_bound_A_eval(1)])
       (simp_all add: utility_payload_def utility_bound_A_eval(2)[unfolded held_def])
  then have run: "dispatch 1 ?ev utility_bound_A = Some utility_bound_A"
    by (simp add: dispatch_def runMicrotasks_idle utility_bound_A_eval)
  from world_context_exclusive[OF run]
  have "listener 1 ?ev utility_bound_A = Some utility_bound_A"
    by (simp add: utility_payload_def utility_bound_A_eval)
  with run show ?thesis by (simp add: utility_bound_A_eval)
qed

text \<open>
  Claim C5 as stated fails for the main World. Two default contexts (ids 1 and 2) are
  created for the main frame of page \<open>A\<close> on its session, and none is destroyed: both are
  registered and both have the frame's main World as their World, so two live
  ExecutionContexts are bound to one World. When context 1 is then destroyed, the main
  World is left without context although context 2 is still registered for it.
\<close>

theorem world_context_exclusive_counterexample:
  "bound_to two_defaults_A (0, MAIN_WORLD)
     = [\<lparr>ec_client = sessionA, ec_payload = default_payload 1 ''A'', ec_world = (0, MAIN_WORLD)\<rparr>,
        \<lparr>ec_client = sessionA, ec_payload = default_payload 2 ''A'', ec_world = (0, MAIN_WORLD)\<rparr>]
   \<and> held (onExecutionContextDestroyed 1 sessionA two_defaults_A) 0 MAIN_WORLD = None
   \<and> bound_to (onExecutionContextDestroyed 1 sessionA two_defaults_A) (0, MAIN_WORLD)
     = [\<lparr>ec_client = sessionA, ec_payload = default_payload 2 ''A'', ec_world = (0, MAIN_WORLD)\<rparr>]"
proof -
  let ?c1 = "\<lparr>ec_client = sessionA, ec_payload = default_payload 1 ''A'', ec_world = (0::nat, MAIN_WORLD)\<rparr>"
  let ?c2 = "\<lparr>ec_client = sessionA, ec_payload = default_payload 2 ''A'', ec_world = (0::nat, MAIN_WORLD)\<rparr>"
  let ?s1 = "onExecutionContextCreated (default_payload 1 ''A'') sessionA page_A"
  have s1: "?s1 = (update_world (0, MAIN_WORLD) (setContext ?c1) page_A)
       \<lparr>contextIdToContext := AList.update (context_key sessionA (cp_id (default_payload 1 ''A'')))
           ?c1 (contextIdToContext page_A)\<rparr>"
    by (rule default_context_bound[where frameId = "''A''"])
       (simp_all add: page_A_eval default_payload_def)
  have ids: "cp_id (default_payload i f) = i" for i f
    by (simp add: default_payload_def)
  have f1: "frame_of ?s1 ''A'' = Some 0" "f_client (objs ?s1 0) = sessionA"
    "contextIdToContext ?s1 = [(context_key sessionA 1, ?c1)]"
    unfolding s1 by (simp_all add: page_A_eval ids)
  have s2: "two_defaults_A = (update_world (0, MAIN_WORLD) (setContext ?c2) ?s1)
       \<lparr>contextIdToContext := AList.update (context_key sessionA (cp_id (default_payload 2 ''A'')))
           ?c2 (contextIdToContext ?s1)\<rparr>"
    unfolding two_defaults_A_def
    by (rule default_context_bound[where frameId = "''A''", OF f1(1,2)])
       (simp_all add: default_payload_def)
  have reg: "contextIdToContext two_defaults_A
               = [(context_key sessionA 1, ?c1), (context_key sessionA 2, ?c2)]"
    unfolding s2 by (simp add: f1(3) context_key_def ids)
  have a: "bound_to two_defaults_A (0, MAIN_WORLD) = [?c1, ?c2]"
    by (simp add: bound_to_def reg)
  have d: "onExecutionContextDestroyed 1 sessionA two_defaults_A
             = update_world (0, MAIN_WORLD) clearContext
                 (two_defaults_A\<lparr>contextIdToContext := [(context_key sessionA 2, ?c2)]\<rparr>)"
    by (simp add: onExecutionContextDestroyed_def Let_def reg context_key_def)
  have b: "held (onExecutionContextDestroyed 1 sessionA two_defaults_A) 0 MAIN_WORLD = None"
    unfolding d by (simp add: held_update_world clearContext_def)
  have c: "bound_to (onExecutionContextDestroyed 1 sessionA two_defaults_A) (0, MAIN_WORLD) = [?c2]"
    unfolding d by (simp add: bound_to_def)
  show ?thesis using a b c by simp
qed

subsection \<open>Navigation of the main frame\<close>

lemma frameNavigatedReceived_update_simps [simp]:
  "keyed (st\<lparr>frameNavigatedReceived := nr\<rparr>) = keyed st"
  "childFrames (st\<lparr>frameNavigatedReceived := nr\<rparr>) = childFrames st"
  by (simp_all add: keyed_def childFrames_def fun_eq_iff)

lemma children_removed:
  assumes "keyed st" and "shape st (Node r ts)" and "distinct (postorder (Node r ts))"
    and "frame_of st (f_id (objs st r)) = Some r"
    and "length (concat (map postorder ts)) \<le> fuel"
  shows "\<exists>st0. for_each (removeFramesRecursively fuel) (childFrames st r) st = Some st0
       \<and> removed st (concat (map postorder ts)) st0
       \<and> keyed st0
       \<and> frame_of st0 (f_id (objs st r)) = Some r
       \<and> childFrames st0 r = []"
proof -
  have children: "childFrames st r = map root ts" and shapes: "list_all (shape st) ts"
    using assms(2) by simp_all
  have dist: "distinct (concat (map postorder ts))" and r_new: "r \<notin> set (concat (map postorder ts))"
    using assms(3) by simp_all
  have dist_t: "distinct (postorder u)" if "u \<in> set ts" for u
    using dist that by (induction ts) auto
  have roots_filed: "\<forall>u\<in>set ts. frame_of st (f_id (objs st (root u))) = Some (root u)"
  proof
    fix u assume "u \<in> set ts"
    then have "root u \<in> set (childFrames st r)" using children by simp
    then show "frame_of st (f_id (objs st (root u))) = Some (root u)"
      by (rule childFrames_filed[OF assms(1)])
  qed
  have desc_filed: "frame_of st (f_id (objs st x)) = Some x"
    if "x \<in> set (concat (map postorder ts))" for x
  proof -
    from that obtain u where u: "u \<in> set ts" "x \<in> set (postorder u)" by auto
    have "shape st u" using shapes u(1) by (simp add: list_all_iff)
    from shape_filed[OF assms(1) this _ u(2)] roots_filed u(1) show ?thesis by blast
  qed
  have "\<exists>st'. for_each (removeFramesRecursively fuel) (map root ts) st = Some st'
             \<and> removed st (concat (map postorder ts)) st'"
  proof (rule forest_removed[OF _ assms(1) shapes dist roots_filed])
    show "\<exists>st'. removeFramesRecursively fuel (root u) s = Some st' \<and> removed s (postorder u) st'"
      if "u \<in> set ts" "keyed s" "shape s u"
         "frame_of s (f_id (objs s (root u))) = Some (root u)" for u s
    proof (rule tree_removed[OF that(2,3) dist_t[OF that(1)] that(4)])
      show "length (postorder u) \<le> fuel"
        using length_postorder_child[OF that(1)] assms(5) by simp
    qed
  qed
  then obtain st0 where st0: "for_each (removeFramesRecursively fuel) (map root ts) st = Some st0"
      and rem0: "removed st (concat (map postorder ts)) st0" by blast
  have keyed0: "keyed st0" by (rule removed_keyed[OF assms(1) rem0])
  have filed0: "frame_of st0 (f_id (objs st0 r)) = Some r"
    by (rule removed_keeps_outside[OF assms(1) rem0 desc_filed assms(4) r_new])
  have id0: "f_id (objs st0 r) = f_id (objs st r)" by (rule removed_ids[OF rem0])
  have no_children: "childFrames st0 r = []"
  proof -
    have "root u \<in> set (concat (map postorder ts))" if "u \<in> set ts" for u
      using that by (auto intro!: bexI[of _ u])
    then show ?thesis
      unfolding removed_childFrames[OF rem0] children by (simp add: filter_empty_conv)
  qed
  show ?thesis
    using st0 rem0 keyed0 filed0 id0 no_children children by simp
qed

lemma waitForFrame_found:
  "frame_of st (fp_id p) = Some r \<Longrightarrow>
   waitForFrame p n st = st\<lparr>microtasks := microtasks st @ [(r, p, n)]\<rparr>"
  by (simp add: waitForFrame_def)

lemma runMicrotasks_one:
  "microtasks st = [(r, p, n)] \<Longrightarrow>
   runMicrotasks st = emit (F_FrameNavigated r n) (emit (FM_FrameNavigated r)
                        (update_frame r (navigated p) (st\<lparr>microtasks := []\<rparr>)))"
  by (simp add: runMicrotasks_def onFrameNavigated_resume_def)

lemma addFrame_queues [simp]:
  "waitRequests st = [] \<Longrightarrow> microtasks (addFrame r st) = microtasks st"
  "waitRequests st = [] \<Longrightarrow> waitRequests (addFrame r st) = []"
  by (simp_all add: addFrame_def Let_def)

text \<open>
  The part of claim C3 that the code keeps: a frame-navigated event without parent id whose
  frame id is filed in the tree first removes all descendants of that Frame, then files the
  same Frame object again (no Frame is constructed), and the Frame takes the URL and the
  loader id of the event.
\<close>

lemma navigation_of_filed_main_frame:
  assumes "keyed st" and "shape st (Node r ts)" and "distinct (postorder (Node r ts))"
    and "frame_of st (fp_id p) = Some r" and "\<not> truthy (fp_parentId p)"
    and "microtasks st = []" and "waitRequests st = []"
    and "length (concat (map postorder ts)) \<le> fuel"
  shows "\<exists>st'. dispatch fuel (Page_frameNavigated p n) st = Some st'
       \<and> emitted st' = emitted st @ detach_notes (concat (map postorder ts))
                          @ [FM_FrameNavigated r, F_FrameNavigated r n]
       \<and> frame_of st' (fp_id p) = Some r
       \<and> nextRef st' = nextRef st
       \<and> objs st' r = navigated p (objs st r)
       \<and> (\<forall>x\<in>set (concat (map postorder ts)).
             frame_of st' (f_id (objs st x)) = None \<and> f_detached (objs st' x))"
proof -
  let ?sa = "st\<lparr>frameNavigatedReceived := insert (fp_id p) (frameNavigatedReceived st)\<rparr>"
  have id_r: "f_id (objs st r) = fp_id p" using assms(1,4) by (simp add: keyed_def)
  have r_new: "r \<notin> set (concat (map postorder ts))" using assms(3) by simp
  have sh: "shape ?sa (Node r ts)"
    by (rule shape_cong_nodes[OF _ assms(2)]) simp
  have "\<exists>st0. for_each (removeFramesRecursively fuel) (childFrames ?sa r) ?sa = Some st0
       \<and> removed ?sa (concat (map postorder ts)) st0
       \<and> keyed st0
       \<and> frame_of st0 (f_id (objs ?sa r)) = Some r
       \<and> childFrames st0 r = []"
    by (rule children_removed[OF _ sh assms(3)]) (use assms id_r in simp_all)
  then obtain st0 where
    run0: "for_each (removeFramesRecursively fuel) (childFrames ?sa r) ?sa = Some st0"
    and rem0: "removed ?sa (concat (map postorder ts)) st0" by blast
  have objs0: "objs st0 y = (if y \<in> set (concat (map postorder ts)) then dispose (objs st y)
                             else objs st y)" for y
    using removed_objs[OF rem0, of y] by simp
  have frames0: "frame_of st0 i =
      (if i \<in> (\<lambda>x. f_id (objs st x)) ` set (concat (map postorder ts)) then None
       else frame_of st i)" for i
    using removed_frame_of[OF rem0, of i] by simp
  have q0: "microtasks st0 = []" "waitRequests st0 = []" "nextRef st0 = nextRef st"
    "emitted st0 = emitted st @ detach_notes (concat (map postorder ts))"
    using removedD(10)[OF rem0] removedD(11)[OF rem0] removedD(8)[OF rem0] removedD(1)[OF rem0]
      assms(6,7) by simp_all
  have id0: "f_id (objs st0 r) = fp_id p" using r_new id_r by (simp add: objs0)
  define s2 where "s2 = addFrame r (update_frame r (\<lambda>f. f\<lparr>f_id := fp_id p\<rparr>) (removeFrame r st0))"
  have same_obj: "(objs st0)(r := (objs st0 r)\<lparr>f_id := fp_id p\<rparr>) = objs st0"
    using id0 by (simp add: fun_eq_iff)
  have s2: "objs s2 = objs st0" "microtasks s2 = []" "emitted s2 = emitted st0"
    "nextRef s2 = nextRef st0" "frame_of s2 = (frame_of st0)(fp_id p \<mapsto> r)"
    unfolding s2_def using q0 same_obj id0 by (simp_all add: fun_eq_iff)
  have nav: "onFrameNavigated fuel p n ?sa = Some (waitForFrame p n s2)"
    using assms(4,5) run0
    by (simp add: onFrameNavigated_def Let_def s2_def frame_of_def[symmetric])
  have found: "frame_of s2 (fp_id p) = Some r" by (simp add: s2)
  have queued: "waitForFrame p n s2 = s2\<lparr>microtasks := [(r, p, n)]\<rparr>"
    using waitForFrame_found[OF found, of n] by (simp add: s2)
  define st' where "st' = runMicrotasks (s2\<lparr>microtasks := [(r, p, n)]\<rparr>)"
  have st'_eq: "st' = emit (F_FrameNavigated r n) (emit (FM_FrameNavigated r)
                        (update_frame r (navigated p) (s2\<lparr>microtasks := []\<rparr>)))"
    unfolding st'_def by (simp add: runMicrotasks_one)
  have run: "dispatch fuel (Page_frameNavigated p n) st = Some st'"
    by (simp add: dispatch_def nav queued st'_def)
  have "emitted st' = emitted st @ detach_notes (concat (map postorder ts))
                          @ [FM_FrameNavigated r, F_FrameNavigated r n]"
    by (simp add: st'_eq s2 q0)
  moreover have "frame_of st' (fp_id p) = Some r" by (simp add: st'_eq s2)
  moreover have "nextRef st' = nextRef st" by (simp add: st'_eq s2 q0)
  moreover have "objs st' r = navigated p (objs st r)"
    using r_new by (simp add: st'_eq s2 objs0)
  moreover have "\<forall>x\<in>set (concat (map postorder ts)).
             frame_of st' (f_id (objs st x)) = None \<and> f_detached (objs st' x)"
  proof
    fix x assume x: "x \<in> set (concat (map postorder ts))"
    then have "x \<noteq> r" using r_new by blast
    moreover have "f_id (objs st x) \<noteq> fp_id p"
    proof
      assume e: "f_id (objs st x) = fp_id p"
      have "fp_id p \<in> (\<lambda>x. f_id (objs st x)) ` set (concat (map postorder ts))"
        using x e[symmetric] by (rule image_eqI[rotated])
      then have "frame_of st0 (fp_id p) = None" by (simp only: frames0 if_True)
      moreover have "frame_of st0 (fp_id p) = Some r"
        using children_removed[OF _ sh assms(3), of fuel] assms id_r run0 by simp
      ultimately show False by simp
    qed
    ultimately show "frame_of st' (f_id (objs st x)) = None \<and> f_detached (objs st' x)"
      using x by (auto simp: st'_eq s2 objs0 frames0)
  qed
  ultimately show ?thesis using run by blast
qed

lemma attached_B_tree:
  "t_frames (frameTree attached_B) = [''A'' \<mapsto> 0, ''B'' \<mapsto> Suc 0]"
  "t_childIds (frameTree attached_B) = (\<lambda>_. [])(''A'' := [''B''])"
  "f_id (objs attached_B 0) = ''A''" "f_id (objs attached_B (Suc 0)) = ''B''"
  "microtasks attached_B = []" "waitRequests attached_B = []"
  "objs attached_B 0 = objs page_A 0"
proof -
  have 1: "attached_B = emit (FM_FrameAttached (Suc 0))
       (addFrame (Suc 0) (page_A\<lparr>objs := (objs page_A)(Suc 0 := new_CdpFrame ''B'' (Some ''A'') sessionA),
              nextRef := Suc (Suc 0)\<rparr>))"
    unfolding attached_B_def
    using attach_new[of page_A "''B''" sessionA "''A''"]
    by (simp add: frame_of_def getById_def page_A_tree)
  show "t_frames (frameTree attached_B) = [''A'' \<mapsto> 0, ''B'' \<mapsto> Suc 0]"
    "t_childIds (frameTree attached_B) = (\<lambda>_. [])(''A'' := [''B''])"
    unfolding 1 by (simp_all add: tree_addFrame_fields new_CdpFrame_def page_A_tree)
  show "f_id (objs attached_B 0) = ''A''" "f_id (objs attached_B (Suc 0)) = ''B''"
    "microtasks attached_B = []" "waitRequests attached_B = []"
    "objs attached_B 0 = objs page_A 0"
    unfolding 1 by (simp_all add: new_CdpFrame_def page_A_tree)
qed

lemma attached_B_keyed: "keyed attached_B"
  unfolding keyed_def frame_of_def getById_def attached_B_tree(1)
  by (auto simp: attached_B_tree(3,4) split: if_splits)

lemma attached_B_shape: "shape attached_B (Node 0 [Node (Suc 0) []])"
  by (simp add: childFrames_def tree_childFrames_def attached_B_tree(1-4) List.map_filter_simps)

lemma page_A_worlds:
  "held page_A 0 MAIN_WORLD = None" "held page_A 0 PUPPETEER_WORLD = None"
  by (simp_all add: held_def page_A_def onFrameNavigated_def new_FrameManager_def empty_tree_def
      prim_defs waitForFrame_def runMicrotasks_def onFrameNavigated_resume_def
      main_payload_def new_CdpFrame_def navigated_def Let_def)

text \<open>
  The scenario of claim C3: the page has root \<open>A\<close>; child \<open>B\<close> is attached; then \<open>A\<close> is
  navigated with the new loader \<open>L2\<close>. Afterwards \<open>B\<close> is detached and does not resolve,
  \<open>A\<close> is the same Frame object under the same id with the new URL and loader, and its
  worlds hold no context.
\<close>

lemma scenario_attach_then_navigate:
  "\<exists>st'. dispatch 1 (Page_frameNavigated (main_payload ''A'' ''L2'') Navigation) attached_B
           = Some st'
       \<and> frame_of st' ''B'' = None \<and> f_detached (objs st' 1)
       \<and> frame_of st' ''A'' = Some 0
       \<and> f_url (objs st' 0) = ''http://L2'' \<and> f_loaderId (objs st' 0) = ''L2''
       \<and> held st' 0 MAIN_WORLD = None \<and> held st' 0 PUPPETEER_WORLD = None
       \<and> emitted st' = emitted attached_B
            @ [FM_FrameDetached 1, F_FrameDetached 1, FM_FrameNavigated 0,
               F_FrameNavigated 0 Navigation]"
proof -
  have "frame_of attached_B (fp_id (main_payload ''A'' ''L2'')) = Some 0"
    by (simp add: frame_of_def getById_def attached_B_tree main_payload_def)
  from navigation_of_filed_main_frame[OF attached_B_keyed attached_B_shape _ this,
      of 1 Navigation]
  obtain st' where
    run: "dispatch 1 (Page_frameNavigated (main_payload ''A'' ''L2'') Navigation) attached_B
           = Some st'"
    and em: "emitted st' = emitted attached_B @ detach_notes [Suc 0]
                          @ [FM_FrameNavigated 0, F_FrameNavigated 0 Navigation]"
    and a: "frame_of st' ''A'' = Some 0"
    and o: "objs st' 0 = navigated (main_payload ''A'' ''L2'') (objs attached_B 0)"
    and b: "frame_of st' ''B'' = None \<and> f_detached (objs st' (Suc 0))"
    by (auto simp: attached_B_tree main_payload_def)
  have w: "held st' 0 k = held page_A 0 k" for k
    by (simp add: held_def o attached_B_tree navigated_def)
  have u: "f_url (objs st' 0) = ''http://L2''" "f_loaderId (objs st' 0) = ''L2''"
    by (simp_all add: o navigated_def main_payload_def)
  show ?thesis
    using run em a b u w by (simp add: page_A_worlds detach_notes_def)
qed

text \<open>
  Claim C3 fails where the event names another frame id than the one the main Frame is
  filed under. The main Frame \<open>A\<close> (object 0) exists, the event is about a frame without
  parent and has id \<open>B\<close>: the lookup by the new id finds nothing, so a second Frame (object
  1) is constructed and filed under \<open>B\<close>, while object 0 keeps id \<open>A\<close>, stays filed under \<open>A\<close>
  and is not navigated.
\<close>

theorem main_frame_navigation_with_new_id_constructs_frame:
  "\<exists>st'. dispatch 1 (Page_frameNavigated (main_payload ''B'' ''L2'') Navigation) page_A = Some st'
       \<and> mainFrame page_A = Some 0 \<and> nextRef page_A = 1
       \<and> nextRef st' = 2
       \<and> frame_of st' ''B'' = Some 1
       \<and> frame_of st' ''A'' = Some 0
       \<and> mainFrame st' = Some 0
       \<and> f_id (objs st' 0) = ''A''
       \<and> objs st' 0 = objs page_A 0
       \<and> emitted st' = emitted page_A @ [FM_FrameNavigated 1, F_FrameNavigated 1 Navigation]"
proof -
  let ?p = "main_payload ''B'' ''L2''"
  let ?sa = "page_A\<lparr>frameNavigatedReceived := insert ''B'' (frameNavigatedReceived page_A)\<rparr>"
  define s2 where "s2 = addFrame (Suc 0)
      (?sa\<lparr>objs := (objs ?sa)(Suc 0 := new_CdpFrame ''B'' None sessionA), nextRef := Suc (Suc 0)\<rparr>)"
  have fpid: "fp_id ?p = ''B''" by (simp add: main_payload_def)
  have nav: "onFrameNavigated (Suc 0) ?p Navigation ?sa = Some (waitForFrame ?p Navigation s2)"
    by (simp add: onFrameNavigated_def Let_def main_payload_def getById_def page_A_tree
        allocate_def page_A_eval s2_def)
  have s2: "frame_of s2 = (frame_of page_A)(''B'' \<mapsto> Suc 0)" "microtasks s2 = []"
    "emitted s2 = emitted page_A" "nextRef s2 = Suc (Suc 0)"
    "objs s2 = (objs page_A)(Suc 0 := new_CdpFrame ''B'' None sessionA)"
    "mainFrame s2 = Some 0"
    unfolding s2_def
    by (simp_all add: new_CdpFrame_def page_A_tree page_A_eval fun_eq_iff)
  have queued: "waitForFrame ?p Navigation s2 = s2\<lparr>microtasks := [(Suc 0, ?p, Navigation)]\<rparr>"
    using waitForFrame_found[of s2 ?p "Suc 0" Navigation]
    by (simp add: s2 main_payload_def)
  define st' where "st' = runMicrotasks (s2\<lparr>microtasks := [(Suc 0, ?p, Navigation)]\<rparr>)"
  have st'_eq: "st' = emit (F_FrameNavigated (Suc 0) Navigation) (emit (FM_FrameNavigated (Suc 0))
                 (update_frame (Suc 0) (navigated ?p) (s2\<lparr>microtasks := []\<rparr>)))"
    unfolding st'_def by (simp add: runMicrotasks_one)
  have run: "dispatch (Suc 0) (Page_frameNavigated ?p Navigation) page_A = Some st'"
    by (simp add: dispatch_def fpid nav queued st'_def)
  have "nextRef st' = 2" "frame_of st' ''B'' = Some 1" "frame_of st' ''A'' = Some 0"
    "mainFrame st' = Some 0" "f_id (objs st' 0) = ''A''" "objs st' 0 = objs page_A 0"
    "emitted st' = emitted page_A @ [FM_FrameNavigated 1, F_FrameNavigated 1 Navigation]"
    by (simp_all add: st'_eq s2 page_A_eval page_A_tree)
  then show ?thesis using run by (simp add: page_A_eval page_A_tree)
qed

subsection \<open>Swapping the frame tree\<close>

lemma clear_entries_fields:
  "frameTree (fold (clear_entry s) xs st) = frameTree st
   \<and> emitted (fold (clear_entry s) xs st) = emitted st
   \<and> nextRef (fold (clear_entry s) xs st) = nextRef st
   \<and> client (fold (clear_entry s) xs st) = client st
   \<and> waitRequests (fold (clear_entry s) xs st) = waitRequests st
   \<and> microtasks (fold (clear_entry s) xs st) = microtasks st
   \<and> awaitingSwap (fold (clear_entry s) xs st) = awaitingSwap st
   \<and> frameNavigatedReceived (fold (clear_entry s) xs st) = frameNavigatedReceived st"
  by (induction xs arbitrary: st)
     (auto simp: clear_entry_def update_world_def update_frame_def split: prod.splits)

lemma cleared_fields:
  "frameTree (onExecutionContextsCleared s st) = frameTree st"
  "emitted (onExecutionContextsCleared s st) = emitted st"
  "nextRef (onExecutionContextsCleared s st) = nextRef st"
  "client (onExecutionContextsCleared s st) = client st"
  "waitRequests (onExecutionContextsCleared s st) = waitRequests st"
  "microtasks (onExecutionContextsCleared s st) = microtasks st"
  "awaitingSwap (onExecutionContextsCleared s st) = awaitingSwap st"
  "frameNavigatedReceived (onExecutionContextsCleared s st) = frameNavigatedReceived st"
  using clear_entries_fields[of s "contextIdToContext st" st]
  by (simp_all add: onExecutionContextsCleared_def)

lemma clear_entries_frame_fields:
  "f_id (objs (fold (clear_entry s) xs st) x) = f_id (objs st x)
   \<and> f_parentId (objs (fold (clear_entry s) xs st) x) = f_parentId (objs st x)
   \<and> f_client (objs (fold (clear_entry s) xs st) x) = f_client (objs st x)"
proof (induction xs arbitrary: st)
  case Nil show ?case by simp
next
  case (Cons e xs)
  obtain key ctx where e: "e = (key, ctx)" by (cases e)
  show ?case using Cons[of "clear_entry s e st"] by (simp add: e clear_entry_def)
qed

lemma cleared_frame_fields:
  "f_id (objs (onExecutionContextsCleared s st) x) = f_id (objs st x)"
  "f_parentId (objs (onExecutionContextsCleared s st) x) = f_parentId (objs st x)"
  "f_client (objs (onExecutionContextsCleared s st) x) = f_client (objs st x)"
  using clear_entries_frame_fields[of s "contextIdToContext st" st x]
  by (simp_all add: onExecutionContextsCleared_def)

lemma page_A_id: "f_id (objs page_A 0) = ''A''"
  by (simp add: page_A_def onFrameNavigated_def new_FrameManager_def empty_tree_def
      prim_defs waitForFrame_def runMicrotasks_def onFrameNavigated_resume_def
      main_payload_def new_CdpFrame_def navigated_def Let_def)

lemma rebind_result:
  assumes "mainFrame st = Some r"
  shows "frame_of (swapFrameTree_rebind c r st) (targetId c) = Some r"
    and "mainFrame (swapFrameTree_rebind c r st) = Some r"
    and "f_id (objs (swapFrameTree_rebind c r st) r) = targetId c"
    and "w_context (f_worlds (objs (swapFrameTree_rebind c r st) r) MAIN_WORLD) = None"
    and "w_context (f_worlds (objs (swapFrameTree_rebind c r st) r) PUPPETEER_WORLD) = None"
    and "f_client (objs (swapFrameTree_rebind c r st) r) = c"
    and "emitted (swapFrameTree_rebind c r st) = emitted st"
    and "nextRef (swapFrameTree_rebind c r st) = nextRef st"
    and "client (swapFrameTree_rebind c r st) = client st"
    and "f_id (objs st r) \<noteq> targetId c \<Longrightarrow>
         frame_of (swapFrameTree_rebind c r st) (f_id (objs st r)) = None"
    and "targetId c \<in> frameNavigatedReceived (swapFrameTree_rebind c r st)"
  using assms
  by (simp_all add: swapFrameTree_rebind_def updateId_def updateClient_def
      clearContext_def Let_def update_world_context)

subsection \<open>FrameAttached is emitted for new Frames only\<close>

lemma attach_freshI:
  assumes "nextRef st \<le> nextRef st'" and "emitted st' = emitted st @ new"
    and "\<And>x. x \<in> set (concat (map attached new)) \<Longrightarrow> nextRef st \<le> x \<and> x < nextRef st'"
  shows "attach_fresh st st'"
  using assms by (simp add: attach_fresh_def newly_attached_def list_all_iff)

lemma attach_freshD:
  assumes "attach_fresh st st'"
  shows "nextRef st \<le> nextRef st'"
    and "emitted st' = emitted st @ drop (length (emitted st)) (emitted st')"
    and "x \<in> set (newly_attached st st') \<Longrightarrow> nextRef st \<le> x \<and> x < nextRef st'"
proof -
  show "nextRef st \<le> nextRef st'" using assms by (simp add: attach_fresh_def)
  have "take (length (emitted st)) (emitted st') = emitted st"
    using assms by (simp add: attach_fresh_def)
  then have "take (length (emitted st)) (emitted st') @ drop (length (emitted st)) (emitted st')
             = emitted st @ drop (length (emitted st)) (emitted st')" by simp
  then show "emitted st' = emitted st @ drop (length (emitted st)) (emitted st')" by simp
  show "nextRef st \<le> x \<and> x < nextRef st'" if "x \<in> set (newly_attached st st')"
    using assms that by (simp add: attach_fresh_def list_all_iff)
qed

lemma af_refl [simp]: "attach_fresh st st"
  by (simp add: attach_fresh_def newly_attached_def)

lemma af_trans:
  assumes "attach_fresh a b" and "attach_fresh b c"
  shows "attach_fresh a c"
proof -
  define n1 where "n1 = drop (length (emitted a)) (emitted b)"
  define n2 where "n2 = drop (length (emitted b)) (emitted c)"
  have e1: "emitted b = emitted a @ n1"
    unfolding n1_def by (rule attach_freshD(2)[OF assms(1)])
  have e2: "emitted c = emitted b @ n2"
    unfolding n2_def by (rule attach_freshD(2)[OF assms(2)])
  have m1: "newly_attached a b = concat (map attached n1)"
    by (simp add: newly_attached_def n1_def)
  have m2: "newly_attached b c = concat (map attached n2)"
    by (simp add: newly_attached_def n2_def)
  have le1: "nextRef a \<le> nextRef b" by (rule attach_freshD(1)[OF assms(1)])
  have le2: "nextRef b \<le> nextRef c" by (rule attach_freshD(1)[OF assms(2)])
  show ?thesis
  proof (rule attach_freshI)
    show "nextRef a \<le> nextRef c" using le1 le2 by simp
    show "emitted c = emitted a @ (n1 @ n2)" by (simp add: e2 e1)
    show "nextRef a \<le> x \<and> x < nextRef c" if "x \<in> set (concat (map attached (n1 @ n2)))" for x
    proof -
      from that have "x \<in> set (newly_attached a b) \<or> x \<in> set (newly_attached b c)"
        unfolding m1 m2 by auto
      then show ?thesis
      proof
        assume "x \<in> set (newly_attached a b)"
        from attach_freshD(3)[OF assms(1) this] le2 show ?thesis by simp
      next
        assume "x \<in> set (newly_attached b c)"
        from attach_freshD(3)[OF assms(2) this] le1 show ?thesis by simp
      qed
    qed
  qed
qed

lemma af_same: "emitted b = emitted a \<Longrightarrow> nextRef b = nextRef a \<Longrightarrow> attach_fresh a b"
  by (simp add: attach_fresh_def newly_attached_def)

lemma af_step:
  "attach_fresh s t \<Longrightarrow> emitted t' = emitted t \<Longrightarrow> nextRef t' = nextRef t \<Longrightarrow> attach_fresh s t'"
  by (simp add: attach_fresh_def newly_attached_def)

lemma af_emit: "attached n = [] \<Longrightarrow> attach_fresh s t \<Longrightarrow> attach_fresh s (emit n t)"
proof (rule af_trans[of s t])
  assume "attached n = []"
  then show "attach_fresh t (emit n t)"
    by (intro attach_freshI[where new = "[n]"]) simp_all
qed

lemma af_removeFrame: "attach_fresh s t \<Longrightarrow> attach_fresh s (removeFrame r t)"
  by (erule af_step) simp_all

lemma af_addFrame: "attach_fresh s t \<Longrightarrow> attach_fresh s (addFrame r t)"
  by (erule af_step) simp_all

lemma af_update_frame: "attach_fresh s t \<Longrightarrow> attach_fresh s (update_frame r g t)"
  by (erule af_step) simp_all

lemma af_update_world: "attach_fresh s t \<Longrightarrow> attach_fresh s (update_world w g t)"
  by (erule af_step) simp_all

lemma af_allocate:
  "attach_fresh s t \<Longrightarrow>
   attach_fresh s (t\<lparr>objs := ob, nextRef := Suc (nextRef t)\<rparr>)"
proof (rule af_trans[of s t])
  show "attach_fresh t (t\<lparr>objs := ob, nextRef := Suc (nextRef t)\<rparr>)"
    by (intro attach_freshI[where new = "[]"]) simp_all
qed

lemma af_waitForFrame: "attach_fresh s t \<Longrightarrow> attach_fresh s (waitForFrame p n t)"
  by (erule af_step) (simp_all add: waitForFrame_def split: option.splits)

lemma af_for_each:
  assumes "\<And>x s s'. body x s = Some s' \<Longrightarrow> attach_fresh s s'"
  shows "for_each body xs st = Some st' \<Longrightarrow> attach_fresh st st'"
proof (induction xs arbitrary: st)
  case Nil then show ?case by simp
next
  case (Cons x xs)
  from Cons.prems obtain s1 where s1: "body x st = Some s1" "for_each body xs s1 = Some st'"
    by (auto split: option.splits)
  show ?case by (rule af_trans[OF assms[OF s1(1)] Cons.IH[OF s1(2)]])
qed

lemma af_removeFramesRecursively:
  "removeFramesRecursively fuel r st = Some st' \<Longrightarrow> attach_fresh st st'"
proof (induction fuel arbitrary: r st st')
  case 0 then show ?case by simp
next
  case (Suc n)
  from Suc.prems obtain s1 where s1: "for_each (removeFramesRecursively n) (childFrames st r) st = Some s1"
    and st': "st' = emit (F_FrameDetached r) (emit (FM_FrameDetached r)
                 (removeFrame r (update_frame r dispose s1)))"
    by (auto split: option.splits)
  have "attach_fresh st s1" by (rule af_for_each[OF Suc.IH s1])
  then show ?case unfolding st'
    by (intro af_emit af_removeFrame af_update_frame) simp_all
qed

lemma af_remove_children:
  assumes "for_each (removeFramesRecursively fuel) xs st = Some st'"
  shows "attach_fresh st st'"
proof (rule af_for_each[of "removeFramesRecursively fuel" xs st st'])
  show "attach_fresh s s'" if "removeFramesRecursively fuel x s = Some s'" for x s s'
    using that by (rule af_removeFramesRecursively)
  show "for_each (removeFramesRecursively fuel) xs st = Some st'" by (rule assms)
qed

lemma af_onFrameAttached: "attach_fresh st (onFrameAttached s i p st)"
proof (cases "frame_of st i")
  case None
  have "attach_fresh st
          (emit (FM_FrameAttached (nextRef st))
             (addFrame (nextRef st)
                (st\<lparr>objs := (objs st)(nextRef st := new_CdpFrame i (Some p) s),
                    nextRef := Suc (nextRef st)\<rparr>)))"
    by (intro attach_freshI[where new = "[FM_FrameAttached (nextRef st)]"]) simp_all
  with None show ?thesis by (simp add: onFrameAttached_def allocate_def)
next
  case (Some r)
  then show ?thesis
    by (simp add: onFrameAttached_def af_update_frame)
qed

lemma af_onFrameNavigated:
  assumes "onFrameNavigated fuel p n st = Some st'"
  shows "attach_fresh st st'"
proof -
  let ?frame = "getById (frameTree st) (fp_id p)"
  obtain s1 where s1: "(case ?frame of
                 Some r \<Rightarrow> for_each (removeFramesRecursively fuel) (childFrames st r) st
               | None \<Rightarrow> Some st) = Some s1"
    and st': "st' = waitForFrame p n
               (if \<not> truthy (fp_parentId p) then
                  (case ?frame of
                     Some r \<Rightarrow>
                       addFrame r (update_frame r (\<lambda>f. f\<lparr>f_id := fp_id p\<rparr>) (removeFrame r s1))
                   | None \<Rightarrow>
                       (case allocate (new_CdpFrame (fp_id p) None (client s1)) s1 of
                          (r, st) \<Rightarrow> addFrame r st))
                else s1)"
    using assms by (auto simp: onFrameNavigated_def Let_def split: option.splits)
  have a: "attach_fresh st s1"
  proof (cases ?frame)
    case None with s1 show ?thesis by simp
  next
    case (Some r)
    with s1 have "for_each (removeFramesRecursively fuel) (childFrames st r) st = Some s1" by simp
    then show ?thesis by (rule af_remove_children)
  qed
  show ?thesis unfolding st'
    by (cases ?frame)
       (auto simp: allocate_def intro!: af_waitForFrame af_addFrame af_update_frame
          af_removeFrame af_allocate a)
qed

lemma af_simple_handlers:
  "attach_fresh st (onFrameNavigatedWithinDocument i u st)"
  "attach_fresh st (onLifecycleEvent ev st)"
  "attach_fresh st (onFrameStartedLoading i st)"
  "attach_fresh st (onFrameStoppedLoading i st)"
  "attach_fresh st (onAttachedToTarget target st)"
proof -
  show "attach_fresh st (onFrameNavigatedWithinDocument i u st)"
    by (cases "frame_of st i")
       (simp_all add: onFrameNavigatedWithinDocument_def af_emit af_update_frame)
  show "attach_fresh st (onLifecycleEvent ev st)"
    by (cases "frame_of st (lp_frameId ev)")
       (simp_all add: onLifecycleEvent_def af_emit af_update_frame)
  show "attach_fresh st (onFrameStartedLoading i st)"
    by (cases "frame_of st i") (simp_all add: onFrameStartedLoading_def af_update_frame)
  show "attach_fresh st (onFrameStoppedLoading i st)"
    by (cases "frame_of st i")
       (simp_all add: onFrameStoppedLoading_def af_emit af_update_frame)
  show "attach_fresh st (onAttachedToTarget target st)"
    by (cases "frame_of st (ti_targetId target)")
       (simp_all add: onAttachedToTarget_def af_update_frame)
qed

lemma af_onFrameDetached:
  "onFrameDetached fuel i reason st = Some st' \<Longrightarrow> attach_fresh st st'"
proof (cases "frame_of st i")
  case None
  assume "onFrameDetached fuel i reason st = Some st'"
  with None show ?thesis by (simp add: onFrameDetached_def)
next
  case (Some r)
  assume run: "onFrameDetached fuel i reason st = Some st'"
  show ?thesis
  proof (cases reason)
    case Remove
    with run Some show ?thesis
      by (simp add: onFrameDetached_def af_removeFramesRecursively)
  next
    case Swap
    with run Some show ?thesis by (auto simp: onFrameDetached_def intro!: af_emit)
  next
    case OtherReason
    with run Some show ?thesis by (simp add: onFrameDetached_def)
  qed
qed

lemma af_onExecutionContextCreated: "attach_fresh st (onExecutionContextCreated p s st)"
  by (rule af_same)
     (simp_all add: onExecutionContextCreated_def Let_def split: option.splits)

lemma af_onExecutionContextDestroyed: "attach_fresh st (onExecutionContextDestroyed i s st)"
  by (rule af_same)
     (simp_all add: onExecutionContextDestroyed_def Let_def split: option.splits)

lemma af_onExecutionContextsCleared: "attach_fresh st (onExecutionContextsCleared s st)"
  by (rule af_same) (simp_all add: cleared_fields)

lemma af_fold:
  assumes "\<And>x s. attach_fresh s (f x s)"
  shows "attach_fresh st (fold f xs st)"
proof (induction xs arbitrary: st)
  case Nil show ?case by simp
next
  case (Cons x xs)
  show ?case using af_trans[OF assms[of st x] Cons[of "f x st"]] by simp
qed

lemma af_resume: "attach_fresh st (onFrameNavigated_resume task st)"
  by (cases task) (simp add: onFrameNavigated_resume_def af_emit af_update_frame)

lemma af_runMicrotasks: "attach_fresh st (runMicrotasks st)"
proof -
  have "attach_fresh (st\<lparr>microtasks := []\<rparr>)
          (fold onFrameNavigated_resume (microtasks st) (st\<lparr>microtasks := []\<rparr>))"
    by (rule af_fold) (rule af_resume)
  then show ?thesis
    unfolding runMicrotasks_def by (rule af_trans[rotated]) (simp add: af_same)
qed

lemma af_handleFrameTree:
  "handleFrameTree fuel s tree st = Some st' \<Longrightarrow> attach_fresh st st'"
  "handleFrameTrees fuel s trees st = Some st' \<Longrightarrow> attach_fresh st st'"
proof (induction fuel s tree st and fuel s trees st arbitrary: st' and st'
       rule: handleFrameTree_handleFrameTrees.induct)
  case (1 fuel session frame children st)
  define s1 where "s1 = (case fp_parentId frame of
                  Some parentId \<Rightarrow>
                    (if parentId \<noteq> [] then onFrameAttached session (fp_id frame) parentId st
                     else st)
                | None \<Rightarrow> st)"
  have a: "attach_fresh st s1"
    unfolding s1_def by (simp add: af_onFrameAttached split: option.splits)
  from "1.prems" obtain s2 where
    s2: "(if fp_id frame \<notin> frameNavigatedReceived s1
               then onFrameNavigated fuel frame Navigation s1
               else Some (s1\<lparr>frameNavigatedReceived := frameNavigatedReceived s1 - {fp_id frame}\<rparr>))
         = Some s2"
    and rest: "handleFrameTrees fuel session children s2 = Some st'"
    by (auto simp: s1_def[symmetric] Let_def split: option.splits)
  have b: "attach_fresh s1 s2"
  proof (cases "fp_id frame \<notin> frameNavigatedReceived s1")
    case True
    with s2 show ?thesis by (simp add: af_onFrameNavigated)
  next
    case False
    with s2 show ?thesis by (auto simp: af_same)
  qed
  have c: "attach_fresh s2 st'"
    by (rule "1.IH"[OF s1_def s2 rest])
  show ?case by (rule af_trans[OF af_trans[OF a b] c])
next
  case (2 fuel session st)
  then show ?case by simp
next
  case (3 fuel session child rest st)
  from "3.prems" obtain s1 where s1: "handleFrameTree fuel session child st = Some s1"
    and r: "handleFrameTrees fuel session rest s1 = Some st'"
    by (auto split: option.splits)
  show ?case by (rule af_trans[OF "3.IH"(1)[OF s1] "3.IH"(2)[OF s1 r]])
qed

lemma af_onClientDisconnect:
  "onClientDisconnect fuel st = Some st' \<Longrightarrow> attach_fresh st st'"
proof (cases "mainFrame st")
  case None
  assume "onClientDisconnect fuel st = Some st'"
  with None show ?thesis by (simp add: onClientDisconnect_def)
next
  case (Some r)
  assume "onClientDisconnect fuel st = Some st'"
  with Some obtain s1 where s1: "for_each (removeFramesRecursively fuel) (childFrames st r) st = Some s1"
    and st': "st' = s1\<lparr>awaitingSwap := awaitingSwap s1 @ [(r, TIME_FOR_WAITING_FOR_SWAP)]\<rparr>"
    by (auto simp: onClientDisconnect_def split: option.splits)
  show ?thesis unfolding st'
    by (rule af_trans[OF af_remove_children[OF s1]]) (simp add: af_same)
qed

lemma af_onSwapTimeout:
  "onSwapTimeout fuel r st = Some st' \<Longrightarrow> attach_fresh st st'"
proof (cases "find (\<lambda>w. fst w = r) (awaitingSwap st)")
  case None
  assume "onSwapTimeout fuel r st = Some st'"
  with None show ?thesis by (simp add: onSwapTimeout_def)
next
  case (Some w)
  assume "onSwapTimeout fuel r st = Some st'"
  with Some have "removeFramesRecursively fuel r (st\<lparr>awaitingSwap := remove1 w (awaitingSwap st)\<rparr>)
        = Some st'"
    by (simp add: onSwapTimeout_def)
  from af_removeFramesRecursively[OF this] show ?thesis
    by (rule af_trans[rotated]) (simp add: af_same)
qed

lemma af_rebind: "attach_fresh s t \<Longrightarrow> attach_fresh s (swapFrameTree_rebind c r t)"
  by (erule af_step) (simp_all add: swapFrameTree_rebind_def Let_def)

lemma af_swapFrameTree: "attach_fresh st (snd (snd (swapFrameTree c st)))"
proof -
  let ?s0 = "(onExecutionContextsCleared (client st) st)\<lparr>client := c\<rparr>"
  have a: "attach_fresh st ?s0"
    by (rule af_same) (simp_all add: cleared_fields)
  have b: "attach_fresh st (swapFrameTree_rebind c r ?s0)" for r
    by (rule af_rebind[OF a])
  show ?thesis
    using a b by (simp add: swapFrameTree_def Let_def split: option.splits)
qed

lemma af_swapFrameTree_resume: "attach_fresh st (swapFrameTree_resume frame st)"
proof (cases frame)
  case None
  then show ?thesis by (simp add: swapFrameTree_resume_def)
next
  case (Some r)
  have "attach_fresh st (emit_FrameSwappedByActivation r st)"
    unfolding emit_FrameSwappedByActivation_def
    by (rule af_step[OF af_emit[OF _ af_refl]]) simp_all
  with Some show ?thesis by (simp add: swapFrameTree_resume_def)
qed

lemma af_listener:
  assumes "listener fuel ev st = Some st'"
  shows "attach_fresh st st'"
proof (cases ev)
  case (Page_frameAttached s i p)
  with assms show ?thesis by (auto simp: af_onFrameAttached)
next
  case (Page_frameNavigated p n)
  with assms have "onFrameNavigated fuel p n
       (st\<lparr>frameNavigatedReceived := insert (fp_id p) (frameNavigatedReceived st)\<rparr>) = Some st'"
    by simp
  from af_onFrameNavigated[OF this] show ?thesis
    by (rule af_trans[rotated]) (simp add: af_same)
next
  case (Page_navigatedWithinDocument i u)
  with assms show ?thesis by (auto simp: af_simple_handlers)
next
  case (Page_frameDetached i reason)
  with assms show ?thesis by (simp add: af_onFrameDetached)
next
  case (Page_frameStartedLoading i)
  with assms show ?thesis by (auto simp: af_simple_handlers)
next
  case (Page_frameStoppedLoading i)
  with assms show ?thesis by (auto simp: af_simple_handlers)
next
  case (Runtime_executionContextCreated p s)
  with assms show ?thesis by (auto simp: af_onExecutionContextCreated)
next
  case (Runtime_executionContextDestroyed i s)
  with assms show ?thesis by (auto simp: af_onExecutionContextDestroyed)
next
  case (Runtime_executionContextsCleared s)
  with assms show ?thesis by (auto simp: af_onExecutionContextsCleared)
next
  case (Page_lifecycleEvent e)
  with assms show ?thesis by (auto simp: af_simple_handlers)
next
  case (Page_getFrameTree_reply s reply)
  with assms show ?thesis by (simp add: af_handleFrameTree)
next
  case (AttachedToTarget target)
  with assms show ?thesis by (auto simp: af_simple_handlers)
next
  case Disconnected
  with assms show ?thesis by (simp add: af_onClientDisconnect)
next
  case (SwapTimeout r)
  with assms show ?thesis by (simp add: af_onSwapTimeout)
next
  case (Swapped c)
  with assms show ?thesis by (auto simp: af_swapFrameTree)
next
  case (SwapInitialized frame)
  with assms show ?thesis by (auto simp: af_swapFrameTree_resume)
qed

lemma af_dispatch:
  assumes "dispatch fuel ev st = Some st'"
  shows "attach_fresh st st'"
proof -
  from assms obtain s1 where s1: "listener fuel ev st = Some s1" and st': "st' = runMicrotasks s1"
    by (auto simp: dispatch_def)
  show ?thesis unfolding st' by (rule af_trans[OF af_listener[OF s1] af_runMicrotasks])
qed

subsection \<open>The swap, before and after its awaits\<close>

lemma resume_result:
  "swapFrameTree_resume (Some r) s
     = s\<lparr>emitted := emitted s @ [F_FrameSwappedByActivation r],
         awaitingSwap := filter (\<lambda>w. fst w \<noteq> r) (awaitingSwap s)\<rparr>"
  by (simp add: swapFrameTree_resume_def emit_FrameSwappedByActivation_def emit_def)

lemma find_filter_none: "find P (filter (\<lambda>w. \<not> P w) xs) = None"
  by (induction xs) simp_all

text \<open>
  Claim C1, as amended. When the tree has a main Frame \<open>r\<close> and the replacement session is a
  CDP session, the part of \<open>swapFrameTree\<close> that runs before its first await raises nothing
  and leaves the same Frame object \<open>r\<close> in the tree: filed under the new target's id (and no
  longer under its old id, when that differs), still the main frame, its id updated, both
  of its worlds without context, the frame manager and the Frame bound to the new session,
  no Frame object constructed and no notification emitted; the swap waits are as they
  were. The rest of \<open>swapFrameTree\<close>, which runs when its awaits have returned, appends
  \<open>FrameSwappedByActivation\<close> for \<open>r\<close> to the notifications, resolves the swap waits on \<open>r\<close>
  and changes nothing else, whatever the state is by then; in the state it leaves, a swap
  timeout for \<open>r\<close> does nothing. And in no turn of the event loop, so in none that falls
  between the two parts, is \<open>FrameAttached\<close> emitted for \<open>r\<close> once \<open>r\<close> has been
  constructed.
\<close>

theorem swapFrameTree_keeps_main_frame:
  assumes "mainFrame st = Some r" and "isCdpSession c"
  shows "\<exists>st1. swapFrameTree c st = (None, Some r, st1)
       \<and> frame_of st1 (targetId c) = Some r
       \<and> (f_id (objs st r) \<noteq> targetId c \<longrightarrow> frame_of st1 (f_id (objs st r)) = None)
       \<and> mainFrame st1 = Some r
       \<and> f_id (objs st1 r) = targetId c
       \<and> w_context (f_worlds (objs st1 r) MAIN_WORLD) = None
       \<and> w_context (f_worlds (objs st1 r) PUPPETEER_WORLD) = None
       \<and> client st1 = c
       \<and> f_client (objs st1 r) = c
       \<and> nextRef st1 = nextRef st
       \<and> emitted st1 = emitted st
       \<and> awaitingSwap st1 = awaitingSwap st
       \<and> (\<forall>s. swapFrameTree_resume (Some r) s
                 = s\<lparr>emitted := emitted s @ [F_FrameSwappedByActivation r],
                     awaitingSwap := filter (\<lambda>w. fst w \<noteq> r) (awaitingSwap s)\<rparr>)
       \<and> (\<forall>s fuel. onSwapTimeout fuel r (swapFrameTree_resume (Some r) s)
                      = Some (swapFrameTree_resume (Some r) s))
       \<and> (\<forall>fuel ev s s'. dispatch fuel ev s = Some s' \<and> r < nextRef s
             \<longrightarrow> r \<notin> set (newly_attached s s'))"
proof -
  let ?st0 = "(onExecutionContextsCleared (client st) st)\<lparr>client := c\<rparr>"
  let ?st1 = "swapFrameTree_rebind c r ?st0"
  have main: "mainFrame ?st0 = Some r"
    using assms(1) by (simp add: mainFrame_def cleared_fields)
  have id0: "f_id (objs ?st0 r) = f_id (objs st r)"
    by (simp add: cleared_frame_fields)
  have eq: "swapFrameTree c st = (None, Some r, ?st1)"
    using main assms(2) by (simp add: swapFrameTree_def Let_def)
  have b1: "frame_of ?st1 (targetId c) = Some r"
    by (rule rebind_result(1)[OF main])
  have b2: "f_id (objs st r) \<noteq> targetId c \<longrightarrow> frame_of ?st1 (f_id (objs st r)) = None"
    using rebind_result(10)[OF main, of c] id0 by simp
  have b3: "mainFrame ?st1 = Some r" by (rule rebind_result(2)[OF main])
  have b4: "f_id (objs ?st1 r) = targetId c" by (rule rebind_result(3)[OF main])
  have b5: "w_context (f_worlds (objs ?st1 r) MAIN_WORLD) = None"
    by (rule rebind_result(4)[OF main])
  have b6: "w_context (f_worlds (objs ?st1 r) PUPPETEER_WORLD) = None"
    by (rule rebind_result(5)[OF main])
  have b7: "client ?st1 = c" using rebind_result(9)[OF main, of c] by simp
  have b8: "f_client (objs ?st1 r) = c" by (rule rebind_result(6)[OF main])
  have b9: "nextRef ?st1 = nextRef st"
    using rebind_result(8)[OF main, of c] by (simp add: cleared_fields)
  have b10: "emitted ?st1 = emitted st"
    using rebind_result(7)[OF main, of c] by (simp add: cleared_fields)
  have b11: "awaitingSwap ?st1 = awaitingSwap st"
    by (simp add: swapFrameTree_rebind_def Let_def cleared_fields)
  have b12: "\<forall>s. swapFrameTree_resume (Some r) s
                 = s\<lparr>emitted := emitted s @ [F_FrameSwappedByActivation r],
                     awaitingSwap := filter (\<lambda>w. fst w \<noteq> r) (awaitingSwap s)\<rparr>"
    by (intro allI) (rule resume_result)
  have b13: "\<forall>s fuel. onSwapTimeout fuel r (swapFrameTree_resume (Some r) s)
                      = Some (swapFrameTree_resume (Some r) s)"
    by (simp add: onSwapTimeout_def resume_result find_filter_none)
  have b14: "\<forall>fuel ev s s'. dispatch fuel ev s = Some s' \<and> r < nextRef s
             \<longrightarrow> r \<notin> set (newly_attached s s')"
  proof (intro allI impI notI)
    fix fuel ev s s'
    assume a: "dispatch fuel ev s = Some s' \<and> r < nextRef s"
      and mem: "r \<in> set (newly_attached s s')"
    from a have run: "dispatch fuel ev s = Some s'" and old: "r < nextRef s" by simp_all
    from attach_freshD(3)[OF af_dispatch[OF run] mem] old show False by simp
  qed
  show ?thesis
    by (intro exI[of _ ?st1] conjI)
       (rule eq b1 b2 b3 b4 b5 b6 b7 b8 b9 b10 b11 b12 b13 b14)+
qed

lemma page_A_rest:
  "frameNavigatedReceived page_A = {''A''}" "f_detached (objs page_A 0) = False"
  by (simp_all add: page_A_def onFrameNavigated_def new_FrameManager_def empty_tree_def
      prim_defs waitForFrame_def runMicrotasks_def onFrameNavigated_resume_def
      main_payload_def new_CdpFrame_def navigated_def Let_def)

lemma held_page_eq:
  "dispatch (Suc 0) Disconnected page_A = Some held_page"
  "held_page = page_A\<lparr>awaitingSwap := [(0, 100)]\<rparr>"
  by (simp_all add: held_page_def dispatch_def onClientDisconnect_def mainFrame_def
      getMainFrame_def childFrames_def tree_childFrames_def page_A_tree List.map_filter_simps
      runMicrotasks_idle TIME_FOR_WAITING_FOR_SWAP_def)

lemma swapped_page_eq:
  "dispatch (Suc 0) (Swapped sessionB) held_page = Some swapped_page"
  "swapFrameTree sessionB held_page = (None, Some 0, swapped_page)"
proof -
  have main: "mainFrame held_page = Some 0"
    by (simp add: held_page_eq(2) page_A_eval)
  have run: "swapFrameTree sessionB held_page
      = (None, Some 0, swapFrameTree_rebind sessionB 0
           ((onExecutionContextsCleared (client held_page) held_page)\<lparr>client := sessionB\<rparr>))"
    using main by (simp add: swapFrameTree_def Let_def sessionB_def mainFrame_def cleared_fields)
  have idle: "microtasks (swapFrameTree_rebind sessionB 0
           ((onExecutionContextsCleared (client held_page) held_page)\<lparr>client := sessionB\<rparr>)) = []"
    by (simp add: swapFrameTree_rebind_def Let_def cleared_fields held_page_eq(2) page_A_tree)
  show "dispatch (Suc 0) (Swapped sessionB) held_page = Some swapped_page"
    by (simp add: swapped_page_def dispatch_def run runMicrotasks_idle[OF idle])
  then show "swapFrameTree sessionB held_page = (None, Some 0, swapped_page)"
    by (simp add: dispatch_def run runMicrotasks_idle[OF idle])
qed

lemma swapped_page_unfold:
  "swapped_page = swapFrameTree_rebind sessionB 0 (page_A\<lparr>awaitingSwap := [(0, 100)], client := sessionB\<rparr>)"
proof -
  have "onExecutionContextsCleared (client held_page) held_page = held_page"
    by (simp add: onExecutionContextsCleared_def held_page_eq(2) page_A_eval)
  then have "swapFrameTree sessionB held_page
      = (None, Some 0, swapFrameTree_rebind sessionB 0 (held_page\<lparr>client := sessionB\<rparr>))"
    by (simp add: swapFrameTree_def Let_def sessionB_def mainFrame_def getMainFrame_def
        held_page_eq(2) page_A_tree)
  then show ?thesis using swapped_page_eq(2) by (simp add: held_page_eq(2))
qed

lemma swapped_page_tree:
  "t_frames (frameTree swapped_page) = [''T'' \<mapsto> 0]"
  "t_childIds (frameTree swapped_page) i = []"
  "t_mainFrame (frameTree swapped_page) = Some 0"
  "f_id (objs swapped_page 0) = ''T''" "f_parentId (objs swapped_page 0) = None"
  "nextRef swapped_page = Suc 0" "awaitingSwap swapped_page = [(0, 100)]"
  "frameNavigatedReceived swapped_page = {''T'', ''A''}"
  "microtasks swapped_page = []" "waitRequests swapped_page = []"
  "emitted swapped_page = emitted page_A" "client swapped_page = sessionB"
  unfolding swapped_page_unfold
  by (simp_all add: swapFrameTree_rebind_def Let_def updateId_def updateClient_def
      tree_addFrame_fields tree_removeFrame_fields page_A_tree page_A_rest sessionB_def
      fun_eq_iff)

lemma swapped_page_timeout:
  "dispatch (Suc 0) (SwapTimeout 0) swapped_page
     = Some (emit (F_FrameDetached 0) (emit (FM_FrameDetached 0)
         (removeFrame 0 (update_frame 0 dispose (swapped_page\<lparr>awaitingSwap := []\<rparr>)))))"
  by (simp add: dispatch_def onSwapTimeout_def swapped_page_tree childFrames_def
      tree_childFrames_def List.map_filter_simps runMicrotasks_idle)

lemma swapped_page_reply:
  "dispatch (Suc 0) new_tree_reply swapped_page = Some st' \<Longrightarrow>
     emitted st' = emitted page_A
        @ [FM_FrameAttached (Suc 0), FM_FrameNavigated (Suc 0), F_FrameNavigated (Suc 0) Navigation]
   \<and> nextRef st' = Suc (Suc 0)
   \<and> frame_of st' ''T'' = Some 0 \<and> frame_of st' ''K'' = Some (Suc 0)"
  by (auto simp: dispatch_def new_tree_reply_def main_payload_def child_payload_def Let_def
      swapped_page_tree onFrameAttached_def frame_of_def getById_def allocate_def
      onFrameNavigated_def childFrames_def tree_childFrames_def List.map_filter_simps
      tree_addFrame_fields new_CdpFrame_def waitForFrame_def runMicrotasks_def
      onFrameNavigated_resume_def)

lemma runMicrotasks_done: "microtasks (runMicrotasks st) = []"
proof -
  have step: "microtasks (onFrameNavigated_resume task s) = microtasks s" for task s
    by (cases task) (simp add: onFrameNavigated_resume_def)
  have "microtasks (fold onFrameNavigated_resume tasks s) = microtasks s" for tasks s
    by (induction tasks arbitrary: s) (simp_all add: step)
  then show ?thesis by (simp add: runMicrotasks_def)
qed

lemma swapped_page_reply_runs:
  "\<exists>st'. dispatch (Suc 0) new_tree_reply swapped_page = Some st'"
  by (simp add: dispatch_def new_tree_reply_def main_payload_def child_payload_def Let_def
      swapped_page_tree onFrameAttached_def frame_of_def getById_def allocate_def
      onFrameNavigated_def childFrames_def tree_childFrames_def List.map_filter_simps
      tree_addFrame_fields new_CdpFrame_def)

theorem swapFrameTree_keeps_main_frame_witness:
  "\<exists>st1 st2. swapFrameTree sessionB held_page = (None, Some 0, st1)
       \<and> frame_of st1 ''T'' = Some 0
       \<and> frame_of st1 ''A'' = None
       \<and> f_id (objs st1 0) = ''T''
       \<and> emitted st1 = emitted held_page
       \<and> awaitingSwap st1 = [(0, 100)]
       \<and> emitted (swapFrameTree_resume (Some 0) st1)
           = emitted held_page @ [F_FrameSwappedByActivation 0]
       \<and> awaitingSwap (swapFrameTree_resume (Some 0) st1) = []
       \<and> dispatch 1 new_tree_reply st1 = Some st2
       \<and> 0 \<notin> set (newly_attached st1 st2)"
proof -
  obtain st2 where run: "dispatch (Suc 0) new_tree_reply swapped_page = Some st2"
    using swapped_page_reply_runs by blast
  have main: "mainFrame held_page = Some 0" by (simp add: held_page_eq(2) page_A_eval)
  have old: "f_id (objs held_page 0) \<noteq> targetId sessionB"
    by (simp add: held_page_eq(2) page_A_tree sessionB_def)
  from swapFrameTree_keeps_main_frame[OF main, of sessionB]
  obtain st1 where a: "swapFrameTree sessionB held_page = (None, Some 0, st1)"
    and b: "frame_of st1 ''T'' = Some 0" "frame_of st1 ''A'' = None"
       "f_id (objs st1 0) = ''T''" "emitted st1 = emitted held_page"
       "awaitingSwap st1 = [(0, 100)]"
    and c: "\<forall>s. swapFrameTree_resume (Some 0) s
                 = s\<lparr>emitted := emitted s @ [F_FrameSwappedByActivation 0],
                     awaitingSwap := filter (\<lambda>w. fst w \<noteq> 0) (awaitingSwap s)\<rparr>"
    and d: "\<forall>fuel ev s s'. dispatch fuel ev s = Some s' \<and> 0 < nextRef s
             \<longrightarrow> 0 \<notin> set (newly_attached s s')"
    using old by (auto simp: sessionB_def held_page_eq(2) page_A_tree)
  have st1: "st1 = swapped_page" using a swapped_page_eq(2) by simp
  have e: "emitted (swapFrameTree_resume (Some 0) st1)
           = emitted held_page @ [F_FrameSwappedByActivation 0]"
      "awaitingSwap (swapFrameTree_resume (Some 0) st1) = []"
    by (simp_all add: c[rule_format] b)
  have f: "dispatch 1 new_tree_reply st1 = Some st2" using run by (simp add: st1)
  have "0 < nextRef st1" by (simp add: st1 swapped_page_tree)
  with d f have g: "0 \<notin> set (newly_attached st1 st2)" by blast
  show ?thesis using a b e f g by blast
qed

text \<open>
  Claim C1 as stated fails, in two ways. The session of page \<open>A\<close> disconnects and the
  replacement session announces itself at once, so \<open>swapFrameTree\<close> rebinds the main Frame
  (object 0) under the new id \<open>T\<close> and awaits \<^verbatim>\<open>initialize\<close>. First, when the swap wait of the
  disconnect times out before those awaits have returned, the main Frame is removed:
  after the swap it does not resolve under \<open>T\<close>, the tree has no main frame and object 0 is
  detached. Second, when the frame tree of the new session has a child \<open>K\<close>, a
  \<open>FrameAttached\<close> notification (for the new Frame object 1) is emitted during the swap,
  before \<open>FrameSwappedByActivation\<close>.
\<close>

theorem swapFrameTree_counterexample:
  "(\<exists>s. dispatch_all 1 [Disconnected, Swapped sessionB, SwapTimeout 0, SwapInitialized (Some 0)]
          page_A = Some s
        \<and> frame_of s ''T'' = None \<and> mainFrame s = None \<and> f_detached (objs s 0))
   \<and> (\<exists>s. dispatch_all 1 [Disconnected, Swapped sessionB, new_tree_reply, SwapInitialized (Some 0)]
          page_A = Some s
        \<and> emitted s = emitted page_A
            @ [FM_FrameAttached 1, FM_FrameNavigated 1, F_FrameNavigated 1 Navigation,
               F_FrameSwappedByActivation 0])"
proof
  let ?gone = "emit (F_FrameDetached 0) (emit (FM_FrameDetached 0)
         (removeFrame 0 (update_frame 0 dispose (swapped_page\<lparr>awaitingSwap := []\<rparr>))))"
  have idle: "microtasks (swapFrameTree_resume (Some 0) ?gone) = []"
    by (simp add: resume_result swapped_page_tree)
  have "dispatch_all (Suc 0) [Disconnected, Swapped sessionB, SwapTimeout 0, SwapInitialized (Some 0)]
          page_A = Some (swapFrameTree_resume (Some 0) ?gone)"
    by (simp add: held_page_eq(1) swapped_page_eq(1) swapped_page_timeout)
       (simp add: dispatch_def runMicrotasks_idle[OF idle])
  moreover have "frame_of (swapFrameTree_resume (Some 0) ?gone) ''T'' = None"
    "mainFrame (swapFrameTree_resume (Some 0) ?gone) = None"
    "f_detached (objs (swapFrameTree_resume (Some 0) ?gone) 0)"
    by (simp_all add: resume_result swapped_page_tree mainFrame_def getMainFrame_def
        tree_removeFrame_fields)
  ultimately show "\<exists>s. dispatch_all 1 [Disconnected, Swapped sessionB, SwapTimeout 0,
          SwapInitialized (Some 0)] page_A = Some s
        \<and> frame_of s ''T'' = None \<and> mainFrame s = None \<and> f_detached (objs s 0)"
    by simp
next
  obtain st2 where run: "dispatch (Suc 0) new_tree_reply swapped_page = Some st2"
    using swapped_page_reply_runs by blast
  note st2 = swapped_page_reply[OF run]
  have tasks: "microtasks st2 = []"
    using run by (auto simp: dispatch_def runMicrotasks_done)
  have idle: "microtasks (swapFrameTree_resume (Some 0) st2) = []"
    by (simp add: resume_result tasks)
  have "dispatch_all (Suc 0) [Disconnected, Swapped sessionB, new_tree_reply, SwapInitialized (Some 0)]
          page_A = Some (swapFrameTree_resume (Some 0) st2)"
    by (simp add: held_page_eq(1) swapped_page_eq(1) run)
       (simp add: dispatch_def runMicrotasks_idle[OF idle])
  moreover have "emitted (swapFrameTree_resume (Some 0) st2) = emitted page_A
            @ [FM_FrameAttached 1, FM_FrameNavigated 1, F_FrameNavigated 1 Navigation,
               F_FrameSwappedByActivation 0]"
    using st2 by (simp add: resume_result)
  ultimately show "\<exists>s. dispatch_all 1 [Disconnected, Swapped sessionB, new_tree_reply,
          SwapInitialized (Some 0)] page_A = Some s
        \<and> emitted s = emitted page_A
            @ [FM_FrameAttached 1, FM_FrameNavigated 1, F_FrameNavigated 1 Navigation,
               F_FrameSwappedByActivation 0]"
    by simp
qed

end
